theory Spec2Isabelle
  imports Main "HOL-Library.Word"
begin

unbundle bit_operations_syntax

section \<open>AT45DBFlash.h: chip families and geometry tables\<close>

text \<open>
  The driver is written for 8-bit AVR targets (the platform layer of the repository is
  megaAVR), so the C type \<open>int\<close> is 16 bits wide: \<open>int\<close> values are \<open>16 word\<close>
  read through \<open>sint\<close>, \<open>uint16_t\<close> is \<open>16 word\<close> read through \<open>unat\<close>,
  \<open>uint32_t\<close> and \<open>int32_t\<close> are \<open>32 word\<close>, \<open>uint8_t\<close> is \<open>8 word\<close>.
\<close>

datatype AT45Flash =
  AT45DB011 | AT45DB021 | AT45DB041 | AT45DB081 | AT45DB161 | AT45DB321 | AT45DB641

text \<open>The value of an enumerator, as \<open>(uint8_t)(_expected_chip)\<close> reads it.\<close>

fun AT45Flash_value :: "AT45Flash \<Rightarrow> nat" where
  "AT45Flash_value AT45DB011 = 0"
| "AT45Flash_value AT45DB021 = 1"
| "AT45Flash_value AT45DB041 = 2"
| "AT45Flash_value AT45DB081 = 3"
| "AT45Flash_value AT45DB161 = 4"
| "AT45Flash_value AT45DB321 = 5"
| "AT45Flash_value AT45DB641 = 6"

definition AT45_PageBitSizes :: "nat list" where
  "AT45_PageBitSizes = [9, 9, 9, 9, 10, 10, 11]"

definition AT45_PagesTotal :: "nat list" where
  "AT45_PagesTotal = [512, 1024, 2048, 4096, 4096, 8192, 8192]"

definition AT45_PageBytes :: "nat list" where
  "AT45_PageBytes = [264, 264, 264, 264, 528, 528, 1056]"

section \<open>The driver object and the chip on the bus\<close>

text \<open>
  One record holds the member variables of the \<open>AT45DBFlash\<close> object that the flash
  algorithm uses (\<open>_expected_chip\<close>, \<open>_density\<close>, \<open>_cur_page_in_buf\<close>) and the state of
  the DataFlash chip behind the SPI bus. The chip is not code of the repository; its
  part of the record and the three bus primitives below (\<open>select\<close>, \<open>SPI_transfer\<close>,
  \<open>unselect\<close>) describe the commands the driver uses, after the table in
  AT45DBFlash.h and the opcodes in AT45DBFlash.cpp:

  \<^item> \<open>0xD7\<close> status register read: every byte clocked out is the status byte, bit 7 set
    when the chip is ready, bits 2 to 5 the density code;
  \<^item> \<open>0xE8\<close> continuous array read: three address bytes, four dummy bytes, then the
    main array from that position on, running over page ends into the next page;
  \<^item> \<open>0x84\<close> buffer 1 write: three address bytes, then data bytes stored in the
    buffer from the byte address on;
  \<^item> \<open>0x53\<close> main memory page to buffer 1 transfer, \<open>0x83\<close> buffer 1 to main memory
    page program with built-in erase, \<open>0x81\<close> page erase, \<open>0x50\<close> block erase (the
    eight pages that share the page address without its three low bits): executed
    when the select line is released, after which the chip is busy for a while.

  While the chip is busy it answers the status command only. \<open>busy_left\<close> counts the
  status bytes that will still report busy; \<open>t_busy\<close> is the number of such bytes a
  self-timed operation takes. \<open>trace\<close> records every finished transaction (the bytes
  sent between select and unselect).
\<close>

record flash =
  expected_chip :: AT45Flash
  density :: "8 word"
  cur_page_in_buf :: "32 word"
  chip :: AT45Flash
  main_mem :: "nat \<Rightarrow> nat \<Rightarrow> 8 word"
  sram :: "nat \<Rightarrow> 8 word"
  busy_left :: nat
  t_busy :: nat
  ss_low :: bool
  rx :: "8 word list"
  trace :: "8 word list list"

subsection \<open>The chip\<close>

definition chip_bits :: "AT45Flash \<Rightarrow> nat" where
  "chip_bits c = AT45_PageBitSizes ! AT45Flash_value c"

definition chip_pages :: "AT45Flash \<Rightarrow> nat" where
  "chip_pages c = AT45_PagesTotal ! AT45Flash_value c"

definition chip_page_bytes :: "AT45Flash \<Rightarrow> nat" where
  "chip_page_bytes c = AT45_PageBytes ! AT45Flash_value c"

text \<open>The density code of the table in AT45DBFlash.h: 3, 5, 7, 9, 11, 13, 15.\<close>

definition density_code :: "AT45Flash \<Rightarrow> 8 word" where
  "density_code c = of_nat (2 * AT45Flash_value c + 3)"

definition status_byte :: "AT45Flash \<Rightarrow> nat \<Rightarrow> 8 word" where
  "status_byte c busy_n = (if busy_n = 0 then 0x80 else 0) OR push_bit 2 (density_code c)"

text \<open>The 24-bit address of a command and its split into page and byte address.\<close>

definition addr24 :: "8 word \<Rightarrow> 8 word \<Rightarrow> 8 word \<Rightarrow> nat" where
  "addr24 a1 a2 a3 = unat a1 * 65536 + unat a2 * 256 + unat a3"

definition page_field :: "AT45Flash \<Rightarrow> nat \<Rightarrow> nat" where
  "page_field c a = (a div 2 ^ chip_bits c) mod chip_pages c"

definition byte_field :: "AT45Flash \<Rightarrow> nat \<Rightarrow> nat" where
  "byte_field c a = a mod 2 ^ chip_bits c"

text \<open>
  Byte \<open>k\<close> of a continuous read of main array \<open>m\<close> on a chip of family \<open>c\<close> that
  started at 24-bit address \<open>a\<close>.
\<close>

definition array_read :: "AT45Flash \<Rightarrow> (nat \<Rightarrow> nat \<Rightarrow> 8 word) \<Rightarrow> nat \<Rightarrow> nat \<Rightarrow> 8 word" where
  "array_read c m a k =
     m ((page_field c a + (byte_field c a + k) div chip_page_bytes c) mod chip_pages c)
       ((byte_field c a + k) mod chip_page_bytes c)"

definition select :: "flash \<Rightarrow> flash" where
  "select s = s\<lparr>ss_low := True, rx := []\<rparr>"

definition SPI_transfer :: "8 word \<Rightarrow> flash \<Rightarrow> 8 word \<times> flash" where
  "SPI_transfer b s =
     (if \<not> ss_low s then (0, s)
      else case rx s of
        [] \<Rightarrow> (0, s\<lparr>rx := [b]\<rparr>)
      | opc # args \<Rightarrow>
          if opc = 0xD7 then (status_byte (chip s) (busy_left s), s\<lparr>rx := rx s @ [b], busy_left := busy_left s - 1\<rparr>)
          else if busy_left s \<noteq> 0 then (0, s\<lparr>rx := rx s @ [b]\<rparr>)
          else if opc = 0xE8 \<and> 7 \<le> length args then
            (array_read (chip s) (main_mem s) (addr24 (args ! 0) (args ! 1) (args ! 2))
               (length args - 7),
             s\<lparr>rx := rx s @ [b]\<rparr>)
          else if opc = 0x84 \<and> 3 \<le> length args then
            (0, s\<lparr>rx := rx s @ [b],
                  sram := (sram s)
                    ((byte_field (chip s) (addr24 (args ! 0) (args ! 1) (args ! 2))
                       + (length args - 3)) mod chip_page_bytes (chip s) := b)\<rparr>)
          else (0, s\<lparr>rx := rx s @ [b]\<rparr>))"

definition chip_execute :: "flash \<Rightarrow> flash" where
  "chip_execute s =
     (case rx s of
        opc # a1 # a2 # a3 # _ \<Rightarrow>
          if busy_left s \<noteq> 0 then s
          else if opc = 0x53 then
            s\<lparr>sram := main_mem s (page_field (chip s) (addr24 a1 a2 a3)), busy_left := t_busy s\<rparr>
          else if opc = 0x83 then
            s\<lparr>main_mem := (main_mem s)(page_field (chip s) (addr24 a1 a2 a3) := sram s),
              busy_left := t_busy s\<rparr>
          else if opc = 0x81 then
            s\<lparr>main_mem := (main_mem s)(page_field (chip s) (addr24 a1 a2 a3) := (\<lambda>_. 0xFF)),
              busy_left := t_busy s\<rparr>
          else if opc = 0x50 then
            s\<lparr>main_mem := (\<lambda>p. if p div 8 = page_field (chip s) (addr24 a1 a2 a3) div 8
                                 then (\<lambda>_. 0xFF) else main_mem s p),
              busy_left := t_busy s\<rparr>
          else s
      | _ \<Rightarrow> s)"

definition unselect :: "flash \<Rightarrow> flash" where
  "unselect s =
     (if ss_low s then (chip_execute s)\<lparr>ss_low := False, rx := [], trace := trace s @ [rx s]\<rparr>
      else s)"

section \<open>AT45DBFlash.cpp\<close>

definition addressToByteInPage :: "32 word \<Rightarrow> flash \<Rightarrow> 16 word" where
  "addressToByteInPage addr s = ucast (addr mod of_nat (AT45_PageBytes ! unat (density s)))"

definition addressToPage :: "32 word \<Rightarrow> flash \<Rightarrow> 16 word" where
  "addressToPage addr s = ucast (addr div of_nat (AT45_PageBytes ! unat (density s)))"


subsection \<open>Status polling and command dispatch\<close>

text \<open>\<open>readStatus\<close>: one transaction, \<open>0xD7\<close> and one status byte.\<close>

definition readStatus :: "flash \<Rightarrow> 8 word \<times> flash" where
  "readStatus s =
     (let s1 = select s;
          s2 = snd (SPI_transfer 0xD7 s1);
          (r, s3) = SPI_transfer 0x00 s2
      in (r, unselect s3))"

definition busy :: "flash \<Rightarrow> bool \<times> flash" where
  "busy s = (case readStatus s of (r, s') \<Rightarrow> ((r AND 0x80) \<noteq> 0x80, s'))"

text \<open>The loop \<open>while (busy());\<close> at the head of \<open>command\<close>.\<close>

function command_wait :: "flash \<Rightarrow> flash" where
  "command_wait s = (case busy s of (b, s') \<Rightarrow> if b then command_wait s' else s')"
  by pat_completeness auto

termination
proof (relation "measure busy_left")
  show "wf (measure busy_left)"
    by simp
next
  fix s :: flash and b s'
  assume run: "(b, s') = busy s" and b
  have ready: "(status_byte (chip s) (busy_left s) AND 0x80) \<noteq> 0x80 \<longleftrightarrow> busy_left s \<noteq> 0"
    by (cases "chip s") (simp_all add: status_byte_def density_code_def)
  have "readStatus s = (status_byte (chip s) (busy_left s), s\<lparr>busy_left := busy_left s - 1, ss_low := False,
          rx := [], trace := trace s @ [[0xD7, 0]]\<rparr>)"
    by (simp add: readStatus_def select_def SPI_transfer_def unselect_def chip_execute_def)
  with run \<open>b\<close> ready have "busy_left s \<noteq> 0" and "busy_left s' = busy_left s - 1"
    by (simp_all add: busy_def)
  then show "(s', s) \<in> measure busy_left"
    by simp
qed

declare command_wait.simps [simp del]

text \<open>
  \<open>command(cmd, isWrite)\<close>: wait for the chip, select it, send the opcode. The second
  parameter is never read by the source and is left out; the ATmega32U4 lines are not
  compiled for this target.
\<close>

definition command :: "8 word \<Rightarrow> flash \<Rightarrow> flash" where
  "command cmd s = snd (SPI_transfer cmd (select (command_wait s)))"

text \<open>
  \<open>waitUntilBusy\<close> polls inside one transaction: \<open>while ((SPI.transfer(0x00) & 0x80) != 0x80)\<close>.
  Nothing in the loop itself bounds it, so it is a partial function: \<open>None\<close> is the
  loop that never ends.
\<close>

partial_function (option) waitUntilBusy_loop :: "flash \<Rightarrow> flash option" where
  "waitUntilBusy_loop s =
     (if (fst (SPI_transfer 0x00 s) AND 0x80) \<noteq> 0x80
      then waitUntilBusy_loop (snd (SPI_transfer 0x00 s))
      else Some (snd (SPI_transfer 0x00 s)))"

declare waitUntilBusy_loop.simps [code]

definition waitUntilBusy :: "flash \<Rightarrow> flash option" where
  "waitUntilBusy s =
     map_option unselect (waitUntilBusy_loop (snd (SPI_transfer 0xD7 (select s))))"

subsection \<open>Addresses on the wire\<close>

text \<open>
  \<open>send3bytesAddr(int page, int start_byte)\<close>: \<open>uint32_t adr = page\<close> sign-extends the
  16-bit \<open>int\<close>, as does the addition of \<open>start_byte\<close>.
\<close>

definition send3bytesAddr :: "16 word \<Rightarrow> 16 word \<Rightarrow> flash \<Rightarrow> flash" where
  "send3bytesAddr page start_byte s =
     (let adr = (scast page :: 32 word);
          adr = push_bit (AT45_PageBitSizes ! unat (density s)) adr + scast start_byte;
          s1 = snd (SPI_transfer (ucast (drop_bit 16 adr)) s);
          s2 = snd (SPI_transfer (ucast (drop_bit 8 adr)) s1)
      in snd (SPI_transfer (ucast adr) s2))"

subsection \<open>The on-chip buffer\<close>

primrec clearBuffer_loop :: "nat \<Rightarrow> flash \<Rightarrow> flash" where
  "clearBuffer_loop 0 s = s"
| "clearBuffer_loop (Suc n) s = clearBuffer_loop n (snd (SPI_transfer 0xFF s))"

definition clearBuffer :: "8 word \<Rightarrow> flash \<Rightarrow> flash" where
  "clearBuffer buf s =
     unselect (clearBuffer_loop 264 (send3bytesAddr 0 0 (command (0x84 + 3 * buf) s)))"

definition getPageToBuf :: "8 word \<Rightarrow> 16 word \<Rightarrow> flash \<Rightarrow> flash option" where
  "getPageToBuf buf page s =
     waitUntilBusy
       (unselect (send3bytesAddr page 0 (command (0x53 + 2 * buf) (clearBuffer buf s))))"

definition writeByteToBuffer :: "8 word \<Rightarrow> 16 word \<Rightarrow> 8 word \<Rightarrow> flash \<Rightarrow> flash" where
  "writeByteToBuffer buf start_byte data s =
     unselect (snd (SPI_transfer (NOT data)
       (send3bytesAddr 0 start_byte (command (0x84 + 3 * buf) s))))"

definition programBufToPage :: "8 word \<Rightarrow> 16 word \<Rightarrow> flash \<Rightarrow> flash" where
  "programBufToPage buf page s =
     unselect (send3bytesAddr page 0 (command (0x83 + 2 * buf) s))"

subsection \<open>Reading\<close>

primrec dummy_transfers :: "nat \<Rightarrow> flash \<Rightarrow> flash" where
  "dummy_transfers 0 s = s"
| "dummy_transfers (Suc n) s = dummy_transfers n (snd (SPI_transfer 0x00 s))"

text \<open>\<open>readByte\<close> returns the byte as the chip sends it.\<close>

definition readByte :: "32 word \<Rightarrow> flash \<Rightarrow> 8 word \<times> flash" where
  "readByte addr s =
     (let s1 = command 0xE8 s;
          s2 = send3bytesAddr (addressToPage addr s1) (addressToByteInPage addr s1) s1;
          s3 = dummy_transfers 4 s2;
          (result, s4) = SPI_transfer 0x00 s3
      in (result, unselect s4))"

text \<open>\<open>readBytes\<close> stores the complement of every byte received.\<close>

primrec readBytes_loop :: "nat \<Rightarrow> flash \<Rightarrow> 8 word list \<times> flash" where
  "readBytes_loop 0 s = ([], s)"
| "readBytes_loop (Suc n) s =
     (case SPI_transfer 0x00 s of (r, s1) \<Rightarrow>
        case readBytes_loop n s1 of (bs, s2) \<Rightarrow> (NOT r # bs, s2))"

definition readBytes :: "32 word \<Rightarrow> 16 word \<Rightarrow> flash \<Rightarrow> 8 word list \<times> flash" where
  "readBytes addr len s =
     (let s1 = command 0xE8 s;
          s2 = send3bytesAddr (addressToPage addr s1) (addressToByteInPage addr s1) s1;
          s3 = dummy_transfers 4 s2;
          (buf, s4) = readBytes_loop (unat len) s3
      in (buf, unselect s4))"

subsection \<open>The continuous write sequence\<close>

text \<open>
  \<open>_cur_page_in_buf\<close> is an \<open>int32_t\<close>: a page number (\<open>uint16_t\<close>) is stored
  zero-extended, and passed on to an \<open>int\<close> parameter it is cut to 16 bits.
\<close>

definition startContWrite :: "32 word \<Rightarrow> flash \<Rightarrow> flash option" where
  "startContWrite start_addr s =
     (let s1 = s\<lparr>cur_page_in_buf := ucast (addressToPage start_addr s)\<rparr>
      in getPageToBuf 0 (ucast (cur_page_in_buf s1)) s1)"

definition writeContByte :: "32 word \<Rightarrow> 8 word \<Rightarrow> flash \<Rightarrow> flash option" where
  "writeContByte addr byte s =
     (let act_addr_page = addressToPage addr s
      in map_option (\<lambda>s3. writeByteToBuffer 0 (addressToByteInPage addr s3) byte s3)
           (if cur_page_in_buf s \<noteq> ucast act_addr_page then
              (let s1 = programBufToPage 0 (ucast (cur_page_in_buf s)) s;
                   s2 = s1\<lparr>cur_page_in_buf := ucast act_addr_page\<rparr>
               in getPageToBuf 0 (ucast (cur_page_in_buf s2)) s2)
            else Some s))"

definition stopContWrite :: "flash \<Rightarrow> flash" where
  "stopContWrite s = programBufToPage 0 (ucast (cur_page_in_buf s)) s"

definition writeByte :: "32 word \<Rightarrow> 8 word \<Rightarrow> flash \<Rightarrow> flash option" where
  "writeByte addr byt s =
     Option.bind (startContWrite addr s) (\<lambda>s1.
     map_option stopContWrite (writeContByte addr byt s1))"

text \<open>
  \<open>writeBytes(addr, buf, len)\<close>: the list is the \<open>len\<close> bytes at \<open>buf\<close>; the counter
  \<open>i\<close> is a \<open>uint16_t\<close>, \<open>addr + i\<close> a 32-bit sum.
\<close>

fun writeBytes_loop :: "32 word \<Rightarrow> 16 word \<Rightarrow> 8 word list \<Rightarrow> flash \<Rightarrow> flash option" where
  "writeBytes_loop addr i [] s = Some s"
| "writeBytes_loop addr i (b # bs) s =
     Option.bind (writeContByte (addr + ucast i) b s) (writeBytes_loop addr (i + 1) bs)"

definition writeBytes :: "32 word \<Rightarrow> 8 word list \<Rightarrow> flash \<Rightarrow> flash option" where
  "writeBytes addr buf s =
     Option.bind (startContWrite addr s) (\<lambda>s1.
     map_option stopContWrite (writeBytes_loop addr 0 buf s1))"

subsection \<open>Erasing\<close>

definition erasePage :: "16 word \<Rightarrow> flash \<Rightarrow> flash option" where
  "erasePage page s = waitUntilBusy (unselect (send3bytesAddr page 0 (command 0x81 s)))"

text \<open>\<open>eraseBlock(int block)\<close> sends the page address \<open>block << 3\<close>.\<close>

definition eraseBlock :: "16 word \<Rightarrow> flash \<Rightarrow> flash option" where
  "eraseBlock block s =
     waitUntilBusy (unselect (send3bytesAddr (push_bit 3 block) 0 (command 0x50 s)))"





text \<open>
  The three region erases share one loop, \<open>for (int i = 0; i < num_pages; i += 8)
  eraseBlock(page + i)\<close>; \<open>num_pages\<close> is at most 2483, so the counter never leaves the
  range of \<open>int\<close>, and \<open>page + i\<close> is a 16-bit sum.
\<close>

function blockErase_loop :: "16 word \<Rightarrow> nat \<Rightarrow> nat \<Rightarrow> flash \<Rightarrow> flash option" where
  "blockErase_loop page i num_pages s =
     (if i < num_pages then
        (case eraseBlock (page + of_nat i) s of
           None \<Rightarrow> None
         | Some s' \<Rightarrow> blockErase_loop page (i + 8) num_pages s')
      else Some s)"
  by pat_completeness auto
termination
  by (relation "measure (\<lambda>(page, i, num_pages, s). num_pages - i)") auto

declare blockErase_loop.simps [simp del]

definition blockErase4K :: "32 word \<Rightarrow> flash \<Rightarrow> flash option" where
  "blockErase4K addr s =
     (let page = addressToPage addr s;
          num_pages = 4096 div (AT45_PageBytes ! unat (density s)) + 1
      in blockErase_loop page 0 num_pages s)"



subsection \<open>Construction, identification, unique identifier\<close>

text \<open>
  The constructor assigns \<open>_expected_chip\<close> and \<open>_cur_page_in_buf\<close> and drives the
  select pin high; \<open>_density\<close> keeps whatever the object's memory held.
\<close>

definition AT45DBFlash :: "AT45Flash \<Rightarrow> flash \<Rightarrow> flash" where
  "AT45DBFlash expected s = unselect (s\<lparr>expected_chip := expected, cur_page_in_buf := - 1\<rparr>)"

text \<open>The loop \<open>while ((sr & 0x80) != 0x80) sr = readStatus();\<close> of \<open>initialize\<close>.\<close>

function initialize_wait :: "8 word \<Rightarrow> flash \<Rightarrow> 8 word \<times> flash" where
  "initialize_wait sr s =
     (if (sr AND 0x80) \<noteq> 0x80 then (case readStatus s of (sr', s') \<Rightarrow> initialize_wait sr' s')
      else (sr, s))"
  by pat_completeness auto
termination
proof (relation "measure (\<lambda>(sr, s). busy_left s + (if (sr AND 0x80) \<noteq> 0x80 then 1 else 0))")
  show "wf (measure (\<lambda>(sr, s). busy_left s + (if (sr AND 0x80) \<noteq> 0x80 then 1 else (0::nat))))"
    by simp
next
  fix sr :: "8 word" and s :: flash and sr' s'
  assume waiting: "(sr AND 0x80) \<noteq> 0x80" and run: "(sr', s') = readStatus s"
  have ready: "(status_byte (chip s) (busy_left s) AND 0x80) \<noteq> 0x80 \<longleftrightarrow> busy_left s \<noteq> 0"
    by (cases "chip s") (simp_all add: status_byte_def density_code_def)
  have "readStatus s = (status_byte (chip s) (busy_left s), s\<lparr>busy_left := busy_left s - 1, ss_low := False,
          rx := [], trace := trace s @ [[0xD7, 0]]\<rparr>)"
    by (simp add: readStatus_def select_def SPI_transfer_def unselect_def chip_execute_def)
  with run have "sr' = status_byte (chip s) (busy_left s)" and "busy_left s' = busy_left s - 1"
    by simp_all
  with waiting ready
  show "((sr', s'), (sr, s)) \<in>
      measure (\<lambda>(sr, s). busy_left s + (if (sr AND 0x80) \<noteq> 0x80 then 1 else 0))"
    by (cases "busy_left s = 0") simp_all
qed

declare initialize_wait.simps [simp del]

text \<open>
  One round of the detection loop and the rounds after it; \<open>n\<close> counts the rounds
  left of the ten. \<open>(den - 3) >> 1\<close> is computed in \<open>int\<close> and stored in a
  \<open>uint8_t\<close>.
\<close>

fun initialize_loop :: "nat \<Rightarrow> flash \<Rightarrow> bool \<times> flash" where
  "initialize_loop 0 s = (False, s)"
| "initialize_loop (Suc n) s =
     (case readStatus s of (r, s1) \<Rightarrow>
        if r \<noteq> 0x00 then
          (case initialize_wait 0 s1 of (sr, s2) \<Rightarrow>
             (let den = drop_bit 2 (sr AND 0x3C);
                  den = (ucast (signed_drop_bit 1 ((ucast den :: 16 word) - 3)) :: 8 word)
              in if of_nat (AT45Flash_value (expected_chip s2)) = den
                 then (True, s2\<lparr>density := den\<rparr>)
                 else initialize_loop n s2))
        else initialize_loop n s1)"

definition initialize :: "flash \<Rightarrow> bool \<times> flash" where
  "initialize s = initialize_loop 10 (unselect s)"




section \<open>A chip for concrete runs\<close>

text \<open>
  A chip of family \<open>c\<close> as it comes erased from the factory (every byte of the main
  array \<open>0xFF\<close>), idle and unselected, with three busy status bytes per self-timed
  operation, and the memory of a driver object not yet constructed.
\<close>

definition blank :: "AT45Flash \<Rightarrow> flash" where
  "blank c = \<lparr>expected_chip = AT45DB011, density = 0, cur_page_in_buf = 0, chip = c,
     main_mem = (\<lambda>_ _. 0xFF), sram = (\<lambda>_. 0x00), busy_left = 0, t_busy = 3,
     ss_low = False, rx = [], trace = []\<rparr>"

section \<open>Reading the chip and the trace\<close>

definition polls :: "nat \<Rightarrow> 8 word list list" where
  "polls n = replicate (Suc n) [0xD7, 0x00]"

definition addr_bytes :: "8 word \<Rightarrow> 16 word \<Rightarrow> 16 word \<Rightarrow> 8 word list" where
  "addr_bytes d page start_byte =
     (let adr = push_bit (AT45_PageBitSizes ! unat d) (scast page :: 32 word)
                  + scast start_byte
      in [ucast (drop_bit 16 adr), ucast (drop_bit 8 adr), ucast adr])"

definition wire_addr :: "8 word list \<Rightarrow> nat" where
  "wire_addr bs = addr24 (bs ! 0) (bs ! 1) (bs ! 2)"

definition txn_clear :: "8 word \<Rightarrow> 8 word list" where
  "txn_clear d = 0x84 # addr_bytes d 0 0 @ replicate 264 0xFF"

definition txn_fetch :: "8 word \<Rightarrow> 16 word \<Rightarrow> 8 word list" where
  "txn_fetch d page = 0x53 # addr_bytes d page 0"

definition txn_program :: "8 word \<Rightarrow> 16 word \<Rightarrow> 8 word list" where
  "txn_program d page = 0x83 # addr_bytes d page 0"

definition txn_bufwrite :: "8 word \<Rightarrow> 16 word \<Rightarrow> 8 word \<Rightarrow> 8 word list" where
  "txn_bufwrite d start_byte data = 0x84 # addr_bytes d 0 start_byte @ [NOT data]"

definition txn_erase :: "8 word \<Rightarrow> 16 word \<Rightarrow> 8 word list" where
  "txn_erase d block = 0x50 # addr_bytes d (push_bit 3 block) 0"

definition txn_read :: "8 word \<Rightarrow> 16 word \<Rightarrow> 16 word \<Rightarrow> nat \<Rightarrow> 8 word list" where
  "txn_read d page start_byte n =
     0xE8 # addr_bytes d page start_byte @ replicate 4 0x00 @ replicate n 0x00"

definition txn_wait :: "nat \<Rightarrow> 8 word list" where
  "txn_wait n = 0xD7 # replicate (Suc n) 0x00"

definition matched :: "flash \<Rightarrow> bool" where
  "matched s \<longleftrightarrow> density s = of_nat (AT45Flash_value (chip s))"

definition dev_bytes :: "AT45Flash \<Rightarrow> nat" where
  "dev_bytes c = chip_pages c * chip_page_bytes c"

definition flat :: "flash \<Rightarrow> nat \<Rightarrow> 8 word" where
  "flat s n = main_mem s (n div chip_page_bytes (chip s)) (n mod chip_page_bytes (chip s))"

definition staged :: "flash \<Rightarrow> nat \<Rightarrow> 8 word" where
  "staged s n =
     (if n div chip_page_bytes (chip s) = unat (cur_page_in_buf s)
      then sram s (n mod chip_page_bytes (chip s)) else flat s n)"

definition session_ok :: "flash \<Rightarrow> bool" where
  "session_ok s \<longleftrightarrow> matched s \<and> unat (cur_page_in_buf s) < chip_pages (chip s)"

text \<open>A linear store after the complements of \<open>bs\<close> are written from position \<open>n\<close> on.\<close>

fun store_bytes :: "(nat \<Rightarrow> 8 word) \<Rightarrow> nat \<Rightarrow> 8 word list \<Rightarrow> nat \<Rightarrow> 8 word" where
  "store_bytes f n [] = f"
| "store_bytes f n (b # bs) = store_bytes (f(n := NOT b)) (Suc n) bs"

text \<open>The transactions of a trace that are not status reads.\<close>

definition device_cmds :: "8 word list list \<Rightarrow> 8 word list list" where
  "device_cmds tr = filter (\<lambda>t. take 1 t \<noteq> [0xD7]) tr"

text \<open>The state after \<open>eraseBlock(b)\<close> has erased block \<open>b\<close>.\<close>

definition after_erase :: "16 word \<Rightarrow> flash \<Rightarrow> flash" where
  "after_erase b s =
     s\<lparr>main_mem := (\<lambda>p. if p div 8 = unat b then (\<lambda>_. 0xFF) else main_mem s p),
       busy_left := 0, ss_low := False, rx := [],
       trace := trace s @ polls (busy_left s) @
         [txn_erase (density s) b, txn_wait (t_busy s)]\<rparr>"

text \<open>
  The commands of the write session of the specification (section 4.3) for the bytes
  \<open>bs\<close> written from linear position \<open>n\<close> on, with page \<open>cur\<close> staged, page size
  \<open>pb\<close>: at every byte whose page is not the staged one, commit the staged page and
  stage the new one; then write the byte into the buffer.
\<close>

fun session_cmds :: "8 word \<Rightarrow> nat \<Rightarrow> 16 word \<Rightarrow> nat \<Rightarrow> 8 word list \<Rightarrow> 8 word list list" where
  "session_cmds d pb cur n [] = []"
| "session_cmds d pb cur n (b # bs) =
     (if of_nat (n div pb) \<noteq> cur
      then [txn_program d cur, txn_clear d, txn_fetch d (of_nat (n div pb))] else [])
     @ [txn_bufwrite d (of_nat (n mod pb)) b]
     @ session_cmds d pb (of_nat (n div pb)) (Suc n) bs"

text \<open>The number of transactions of a trace that start with opcode \<open>opc\<close>.\<close>

definition count_op :: "8 word \<Rightarrow> 8 word list list \<Rightarrow> nat" where
  "count_op opc tr = length (filter (\<lambda>t. take 1 t = [opc]) tr)"

text \<open>
  An erased AT45DB041 (264-byte pages) after the driver object was constructed for it
  and \<open>initialize\<close> has run.
\<close>

definition ready041 :: flash where
  "ready041 = snd (initialize (AT45DBFlash AT45DB041 (blank AT45DB041)))"

text \<open>An identified AT45DB041 whose main array holds \<open>0x00\<close> in every byte.\<close>

definition zeroed041 :: flash where
  "zeroed041 = ready041\<lparr>main_mem := (\<lambda>_ _. 0x00)\<rparr>"


section \<open>What each driver function does to the chip\<close>

lemma status_ready [simp]: "(status_byte c n AND 0x80) \<noteq> 0x80 \<longleftrightarrow> n \<noteq> 0"
  by (cases c) (simp_all add: status_byte_def density_code_def)

lemma chip_execute_other:
  "rx s = opc # zs \<Longrightarrow> opc \<noteq> 0x53 \<Longrightarrow> opc \<noteq> 0x83 \<Longrightarrow> opc \<noteq> 0x81 \<Longrightarrow> opc \<noteq> 0x50 \<Longrightarrow>
   chip_execute s = s"
  by (simp add: chip_execute_def split: list.split)

lemma unselect_other:
  "ss_low s \<Longrightarrow> rx s = opc # zs \<Longrightarrow> opc \<noteq> 0x53 \<Longrightarrow> opc \<noteq> 0x83 \<Longrightarrow> opc \<noteq> 0x81 \<Longrightarrow> opc \<noteq> 0x50 \<Longrightarrow>
   unselect s = s\<lparr>ss_low := False, rx := [], trace := trace s @ [rx s]\<rparr>"
  by (simp add: unselect_def chip_execute_other)

lemma readStatus_eq:
  "readStatus s = (status_byte (chip s) (busy_left s),
     s\<lparr>busy_left := busy_left s - 1, ss_low := False, rx := [],
       trace := trace s @ [[0xD7, 0x00]]\<rparr>)"
  by (simp add: readStatus_def select_def SPI_transfer_def unselect_other[where opc = "0xD7"])

lemma busy_eq:
  "busy s = (busy_left s \<noteq> 0, s\<lparr>busy_left := busy_left s - 1, ss_low := False, rx := [],
     trace := trace s @ [[0xD7, 0x00]]\<rparr>)"
  by (simp add: busy_def readStatus_eq)

lemma command_wait_eq:
  "command_wait s = s\<lparr>busy_left := 0, ss_low := False, rx := [],
     trace := trace s @ polls (busy_left s)\<rparr>"
proof (induction "busy_left s" arbitrary: s)
  case 0
  then show ?case
    by (subst command_wait.simps) (simp add: busy_eq polls_def)
next
  case (Suc n)
  let ?s' = "snd (busy s)"
  have "command_wait s = command_wait ?s'"
    using Suc.hyps(2)[symmetric] by (subst command_wait.simps) (simp add: busy_eq)
  also have "\<dots> = ?s'\<lparr>busy_left := 0, ss_low := False, rx := [],
     trace := trace ?s' @ polls (busy_left ?s')\<rparr>"
    by (rule Suc.hyps(1)) (use Suc.hyps(2)[symmetric] in \<open>simp add: busy_eq\<close>)
  finally show ?case using Suc.hyps(2)[symmetric]
    by (simp add: busy_eq polls_def replicate_app_Cons_same)
qed

lemma command_eq:
  "command c s = s\<lparr>busy_left := 0, ss_low := True, rx := [c],
     trace := trace s @ polls (busy_left s)\<rparr>"
  by (simp add: command_def command_wait_eq select_def SPI_transfer_def)

lemma waitUntilBusy_loop_eq:
  "ss_low s \<Longrightarrow> rx s = 0xD7 # zs \<Longrightarrow>
   waitUntilBusy_loop s =
     Some (s\<lparr>busy_left := 0, rx := rx s @ replicate (Suc (busy_left s)) 0x00\<rparr>)"
proof (induction "busy_left s" arbitrary: s zs)
  case 0
  then show ?case
    by (subst waitUntilBusy_loop.simps) (simp add: SPI_transfer_def)
next
  case (Suc n)
  let ?s' = "snd (SPI_transfer 0x00 s)"
  from Suc.prems Suc.hyps(2) have *: "?s' = s\<lparr>rx := rx s @ [0x00], busy_left := n\<rparr>"
    by (simp add: SPI_transfer_def)
  have "waitUntilBusy_loop ?s' =
      Some (?s'\<lparr>busy_left := 0, rx := rx ?s' @ replicate (Suc (busy_left ?s')) 0x00\<rparr>)"
    by (rule Suc.hyps(1)[where zs = "zs @ [0x00]"]) (use Suc.prems in \<open>simp_all add: *\<close>)
  moreover have "waitUntilBusy_loop s = waitUntilBusy_loop ?s'"
    using Suc.prems Suc.hyps(2)[symmetric]
    by (subst waitUntilBusy_loop.simps) (simp add: SPI_transfer_def)
  ultimately show ?case using Suc.hyps(2)[symmetric]
    by (simp add: * replicate_append_same)
qed

lemma waitUntilBusy_eq:
  "waitUntilBusy s = Some (s\<lparr>busy_left := 0, ss_low := False, rx := [],
     trace := trace s @ [0xD7 # replicate (Suc (busy_left s)) 0x00]\<rparr>)"
proof -
  let ?s1 = "snd (SPI_transfer 0xD7 (select s))"
  have s1: "?s1 = s\<lparr>ss_low := True, rx := [0xD7]\<rparr>"
    by (simp add: select_def SPI_transfer_def)
  have "waitUntilBusy_loop ?s1 =
      Some (?s1\<lparr>busy_left := 0, rx := rx ?s1 @ replicate (Suc (busy_left ?s1)) 0x00\<rparr>)"
    by (rule waitUntilBusy_loop_eq[where zs = "[]"]) (simp_all add: s1)
  then show ?thesis
    by (simp add: waitUntilBusy_def s1 unselect_other[where opc = "0xD7"])
qed

lemma SPI_transfer_arg:
  "ss_low s \<Longrightarrow> rx s = c # zs \<Longrightarrow> c \<noteq> 0xD7 \<Longrightarrow> length zs < 3 \<Longrightarrow>
   SPI_transfer b s = (0, s\<lparr>rx := rx s @ [b]\<rparr>)"
  by (simp add: SPI_transfer_def)

lemma send3bytesAddr_eq:
  assumes "ss_low s" "rx s = [c]" "c \<noteq> 0xD7"
  shows "send3bytesAddr page start_byte s =
    s\<lparr>rx := c # addr_bytes (density s) page start_byte\<rparr>"
proof -
  have 1: "SPI_transfer b1 s = (0, s\<lparr>rx := [c, b1]\<rparr>)" for b1
    using assms by (simp add: SPI_transfer_arg[where c = c and zs = "[]"])
  have 2: "SPI_transfer b2 (s\<lparr>rx := [c, b1]\<rparr>) = (0, s\<lparr>rx := [c, b1, b2]\<rparr>)" for b1 b2
    using assms by (simp add: SPI_transfer_arg[where c = c and zs = "[b1]"])
  have 3: "SPI_transfer b3 (s\<lparr>rx := [c, b1, b2]\<rparr>) = (0, s\<lparr>rx := [c, b1, b2, b3]\<rparr>)"
    for b1 b2 b3
    using assms by (simp add: SPI_transfer_arg[where c = c and zs = "[b1, b2]"])
  show ?thesis
    by (simp only: send3bytesAddr_def addr_bytes_def Let_def 1 2 3 snd_conv)
qed

lemma bytes_nat: "(n::nat) div 65536 mod 256 * 65536 + n div 256 mod 256 * 256 + n mod 256 = n mod 16777216"
proof -
  have 1: "n mod 16777216 = 65536 * (n mod 16777216 div 65536) + n mod 16777216 mod 65536"
    by simp
  have 2: "n mod 16777216 div 65536 = n div 65536 mod 256"
    by (simp add: mod_mult2_eq[of n 65536 256, simplified])
  have 3: "n mod 16777216 mod 65536 = n mod 65536"
    by (simp add: mod_mod_cancel)
  have 4: "n mod 65536 = 256 * (n mod 65536 div 256) + n mod 65536 mod 256"
    by simp
  have 5: "n mod 65536 div 256 = n div 256 mod 256"
    by (simp add: mod_mult2_eq[of n 256 256, simplified])
  have 6: "n mod 65536 mod 256 = n mod 256"
    by (simp add: mod_mod_cancel)
  show ?thesis
    using 1 2 3 4 5 6 by linarith
qed

lemma addr24_bytes:
  fixes x :: "32 word"
  shows "addr24 (ucast (drop_bit 16 x)) (ucast (drop_bit 8 x)) (ucast x) = unat x mod 16777216"
proof -
  have a: "unat (ucast (drop_bit 16 x) :: 8 word) = unat x div 65536 mod 256"
    by (simp add: unsigned_ucast_eq unat_drop_bit_eq take_bit_eq_mod drop_bit_eq_div unat_div_distrib)
  have b: "unat (ucast (drop_bit 8 x) :: 8 word) = unat x div 256 mod 256"
    by (simp add: unsigned_ucast_eq unat_drop_bit_eq take_bit_eq_mod drop_bit_eq_div unat_div_distrib)
  have c: "unat (ucast x :: 8 word) = unat x mod 256"
    by (simp add: unsigned_ucast_eq take_bit_eq_mod)
  show ?thesis
    unfolding addr24_def a b c by (rule bytes_nat)
qed

lemma unat_lt_65536:
  fixes p :: "16 word"
  shows "unat p < 65536"
  using unsigned_less[of p, where 'a = nat] by simp

lemma unat_ucast_16_32:
  fixes p :: "16 word"
  shows "unat (ucast p :: 32 word) = unat p"
proof -
  have "unat p < 4294967296"
    using unat_lt_65536[of p] by linarith
  then have "take_bit 32 (unat p) = unat p"
    by (intro take_bit_nat_eq_self) simp
  then show ?thesis
    by (simp add: unsigned_ucast_eq)
qed

lemma scast_small:
  fixes p :: "16 word"
  assumes "unat p < 32768"
  shows "(scast p :: 32 word) = ucast p"
proof -
  from assms have "int (unat p) < int 32768"
    by (simp only: of_nat_less_iff)
  then have "uint p < 32768"
    by simp
  moreover have "- 32768 \<le> uint p"
    using uint_ge_0[of p] by linarith
  ultimately have "signed_take_bit 15 (uint p) = uint p"
    by (intro signed_take_bit_int_eq_self) simp_all
  then have "sint p = uint p"
    by (simp add: sint_uint)
  then show ?thesis
    by (metis scast_eq ucast_eq)
qed

lemma unat_wire:
  fixes p b :: "16 word"
  assumes n: "n \<le> 11" and p: "unat p < 8192" and b: "unat b < 2 ^ n"
  shows "unat (push_bit n (scast p :: 32 word) + scast b) = unat p * 2 ^ n + unat b"
proof -
  have pow: "(2::nat) ^ n \<le> 2048"
    using power_increasing[OF n, of "2::nat"] by simp
  have b': "unat b < 32768"
    using b pow by linarith
  have sp: "(scast p :: 32 word) = ucast p"
    using p by (intro scast_small) linarith
  have sb: "(scast b :: 32 word) = ucast b"
    using b' by (rule scast_small)
  have prod: "unat p * 2 ^ n < 16777216"
  proof -
    have "unat p * 2 ^ n \<le> 8191 * 2048"
      using p pow by (intro mult_mono) simp_all
    then show ?thesis by simp
  qed
  have "unat (push_bit n (ucast p :: 32 word)) = take_bit 32 (unat p * 2 ^ n)"
    by (subst unsigned_push_bit_eq) (simp add: unat_ucast_16_32 push_bit_eq_mult)
  also have "\<dots> = unat p * 2 ^ n"
    using prod by (intro take_bit_nat_eq_self) simp
  finally have pb: "unat (push_bit n (ucast p :: 32 word)) = unat p * 2 ^ n" .
  have "unat (push_bit n (ucast p :: 32 word)) + unat (ucast b :: 32 word) < 2 ^ LENGTH(32)"
    using prod b' by (simp add: pb unat_ucast_16_32)
  then have "unat (push_bit n (ucast p :: 32 word) + ucast b) =
      unat (push_bit n (ucast p :: 32 word)) + unat (ucast b :: 32 word)"
    by (simp only: unat_add_lem)
  then show ?thesis
    by (simp add: sp sb pb unat_ucast_16_32)
qed

lemma chip_geometry:
  "chip_bits c \<le> 11" "chip_pages c \<le> 8192" "chip_page_bytes c \<le> 2 ^ chip_bits c"
  "0 < chip_page_bytes c" "0 < chip_pages c"
  "chip_pages c * 2 ^ chip_bits c \<le> 16777216"
  by (cases c; simp add: chip_bits_def chip_pages_def chip_page_bytes_def
        AT45_PageBitSizes_def AT45_PagesTotal_def AT45_PageBytes_def)+

lemma tables_of_chip:
  "AT45_PageBitSizes ! unat (of_nat (AT45Flash_value c) :: 8 word) = chip_bits c"
  "AT45_PagesTotal ! unat (of_nat (AT45Flash_value c) :: 8 word) = chip_pages c"
  "AT45_PageBytes ! unat (of_nat (AT45Flash_value c) :: 8 word) = chip_page_bytes c"
  by (cases c; simp add: chip_bits_def chip_pages_def chip_page_bytes_def)+

lemma wire_decode:
  assumes p: "unat p < chip_pages c" and b: "unat b < 2 ^ chip_bits c"
  shows "wire_addr (addr_bytes (of_nat (AT45Flash_value c)) p b) = unat p * 2 ^ chip_bits c + unat b"
proof -
  let ?n = "chip_bits c"
  let ?x = "push_bit ?n (scast p :: 32 word) + scast b"
  have p': "unat p < 8192"
    using p chip_geometry(2)[of c] by linarith
  have x: "unat ?x = unat p * 2 ^ ?n + unat b"
    using chip_geometry(1) p' b by (rule unat_wire)
  have "Suc (unat p) * 2 ^ ?n \<le> chip_pages c * 2 ^ ?n"
    using p by (intro mult_right_mono) simp_all
  then have "unat p * 2 ^ ?n + unat b < 16777216"
    using b chip_geometry(6)[of c] by simp
  then have "unat ?x mod 16777216 = unat p * 2 ^ ?n + unat b"
    by (simp add: x)
  then show ?thesis
    by (simp add: wire_addr_def addr_bytes_def tables_of_chip addr24_bytes Let_def
        numeral_2_eq_2)
qed

lemma page_field_wire:
  assumes "unat p < chip_pages c" and "unat b < 2 ^ chip_bits c"
  shows "page_field c (wire_addr (addr_bytes (of_nat (AT45Flash_value c)) p b)) = unat p"
  using assms by (simp add: wire_decode page_field_def)

lemma byte_field_wire:
  assumes "unat p < chip_pages c" and "unat b < 2 ^ chip_bits c"
  shows "byte_field c (wire_addr (addr_bytes (of_nat (AT45Flash_value c)) p b)) = unat b"
  using assms by (simp add: wire_decode byte_field_def)

lemma length_addr_bytes [simp]: "length (addr_bytes d p b) = 3"
  by (simp add: addr_bytes_def Let_def)

lemma SPI_transfer_bufwrite:
  "ss_low s \<Longrightarrow> rx s = 0x84 # bs \<Longrightarrow> 3 \<le> length bs \<Longrightarrow> busy_left s = 0 \<Longrightarrow>
   SPI_transfer b s = (0, s\<lparr>rx := rx s @ [b],
     sram := (sram s)((byte_field (chip s) (wire_addr bs) + (length bs - 3))
                        mod chip_page_bytes (chip s) := b)\<rparr>)"
  by (simp add: SPI_transfer_def wire_addr_def)

lemma SPI_transfer_read:
  "ss_low s \<Longrightarrow> rx s = 0xE8 # bs \<Longrightarrow> busy_left s = 0 \<Longrightarrow>
   SPI_transfer b s =
     (if 7 \<le> length bs then array_read (chip s) (main_mem s) (wire_addr bs) (length bs - 7) else 0,
      s\<lparr>rx := rx s @ [b]\<rparr>)"
  by (simp add: SPI_transfer_def wire_addr_def)

lemma unselect_fetch:
  "ss_low s \<Longrightarrow> rx s = 0x53 # bs \<Longrightarrow> length bs = 3 \<Longrightarrow> busy_left s = 0 \<Longrightarrow>
   unselect s = s\<lparr>sram := main_mem s (page_field (chip s) (wire_addr bs)),
     busy_left := t_busy s, ss_low := False, rx := [], trace := trace s @ [rx s]\<rparr>"
  by (cases bs rule: list.exhaust; simp)
     (auto simp: unselect_def chip_execute_def wire_addr_def length_Suc_conv numeral_3_eq_3
        split: list.split)

lemma unselect_program:
  "ss_low s \<Longrightarrow> rx s = 0x83 # bs \<Longrightarrow> length bs = 3 \<Longrightarrow> busy_left s = 0 \<Longrightarrow>
   unselect s = s\<lparr>main_mem := (main_mem s)(page_field (chip s) (wire_addr bs) := sram s),
     busy_left := t_busy s, ss_low := False, rx := [], trace := trace s @ [rx s]\<rparr>"
  by (cases bs rule: list.exhaust; simp)
     (auto simp: unselect_def chip_execute_def wire_addr_def length_Suc_conv numeral_3_eq_3
        split: list.split)

lemma unselect_erase:
  "ss_low s \<Longrightarrow> rx s = 0x50 # bs \<Longrightarrow> length bs = 3 \<Longrightarrow> busy_left s = 0 \<Longrightarrow>
   unselect s = s\<lparr>main_mem := (\<lambda>p. if p div 8 = page_field (chip s) (wire_addr bs) div 8
                                   then (\<lambda>_. 0xFF) else main_mem s p),
     busy_left := t_busy s, ss_low := False, rx := [], trace := trace s @ [rx s]\<rparr>"
  by (cases bs rule: list.exhaust; simp)
     (auto simp: unselect_def chip_execute_def wire_addr_def length_Suc_conv numeral_3_eq_3
        split: list.split)

lemma command_addr_eq:
  "c \<noteq> 0xD7 \<Longrightarrow>
   send3bytesAddr page start_byte (command c s) =
     s\<lparr>busy_left := 0, ss_low := True, rx := c # addr_bytes (density s) page start_byte,
       trace := trace s @ polls (busy_left s)\<rparr>"
  by (subst send3bytesAddr_eq[where c = c]) (simp_all add: command_eq)

lemma programBufToPage_eq:
  "programBufToPage 0 page s =
     s\<lparr>main_mem := (main_mem s)
         (page_field (chip s) (wire_addr (addr_bytes (density s) page 0)) := sram s),
       busy_left := t_busy s, ss_low := False, rx := [],
       trace := trace s @ polls (busy_left s) @ [txn_program (density s) page]\<rparr>"
  by (simp add: programBufToPage_def command_addr_eq txn_program_def
      unselect_program[where bs = "addr_bytes (density s) page 0"])

lemma writeByteToBuffer_eq:
  "writeByteToBuffer 0 start_byte data s =
     s\<lparr>sram := (sram s)
         (byte_field (chip s) (wire_addr (addr_bytes (density s) 0 start_byte))
            mod chip_page_bytes (chip s) := NOT data),
       busy_left := 0, ss_low := False, rx := [],
       trace := trace s @ polls (busy_left s) @ [txn_bufwrite (density s) start_byte data]\<rparr>"
  by (simp add: writeByteToBuffer_def command_addr_eq txn_bufwrite_def
      SPI_transfer_bufwrite[where bs = "addr_bytes (density s) 0 start_byte"]
      unselect_other[where opc = "0x84"])

lemma clearBuffer_loop_eq:
  "ss_low s \<Longrightarrow> rx s = 0x84 # zs \<Longrightarrow> busy_left s = 0 \<Longrightarrow>
   \<exists>f. clearBuffer_loop n s = s\<lparr>rx := rx s @ replicate n 0xFF, sram := f\<rparr>"
proof (induction n arbitrary: s zs)
  case 0
  have "s = s\<lparr>rx := rx s @ replicate 0 0xFF, sram := sram s\<rparr>"
    by simp
  then show ?case
    by (metis clearBuffer_loop.simps(1))
next
  case (Suc n)
  let ?s' = "snd (SPI_transfer 0xFF s)"
  from Suc.prems have "?s' = s\<lparr>rx := rx s @ [0xFF], sram := sram ?s'\<rparr>"
    by (simp add: SPI_transfer_def)
  then obtain g where *: "?s' = s\<lparr>rx := rx s @ [0xFF], sram := g\<rparr>"
    by (rule that)
  have "\<exists>f. clearBuffer_loop n ?s' = ?s'\<lparr>rx := rx ?s' @ replicate n 0xFF, sram := f\<rparr>"
    by (rule Suc.IH[where zs = "zs @ [0xFF]"]) (use Suc.prems in \<open>simp_all add: *\<close>)
  then obtain f where
    "clearBuffer_loop n ?s' = ?s'\<lparr>rx := rx ?s' @ replicate n 0xFF, sram := f\<rparr>"
    by blast
  then have "clearBuffer_loop (Suc n) s = s\<lparr>rx := rx s @ replicate (Suc n) 0xFF, sram := f\<rparr>"
    by (simp add: * replicate_app_Cons_same)
  then show ?case
    by blast
qed

lemma clearBuffer_eq:
  "\<exists>f. clearBuffer 0 s = s\<lparr>sram := f, busy_left := 0, ss_low := False, rx := [],
     trace := trace s @ polls (busy_left s) @ [txn_clear (density s)]\<rparr>"
proof -
  let ?s2 = "send3bytesAddr 0 0 (command 0x84 s)"
  have s2: "?s2 = s\<lparr>busy_left := 0, ss_low := True, rx := 0x84 # addr_bytes (density s) 0 0,
     trace := trace s @ polls (busy_left s)\<rparr>"
    by (simp add: command_addr_eq)
  have "\<exists>f. clearBuffer_loop 264 ?s2 = ?s2\<lparr>rx := rx ?s2 @ replicate 264 0xFF, sram := f\<rparr>"
    by (rule clearBuffer_loop_eq[where zs = "addr_bytes (density s) 0 0"]) (simp_all add: s2)
  then obtain f where
    "clearBuffer_loop 264 ?s2 = ?s2\<lparr>rx := rx ?s2 @ replicate 264 0xFF, sram := f\<rparr>"
    by blast
  then have "clearBuffer 0 s = s\<lparr>sram := f, busy_left := 0, ss_low := False, rx := [],
     trace := trace s @ polls (busy_left s) @ [txn_clear (density s)]\<rparr>"
    by (simp add: clearBuffer_def s2 unselect_other[where opc = "0x84"] txn_clear_def)
  then show ?thesis
    by blast
qed

lemma getPageToBuf_eq:
  "getPageToBuf 0 page s =
     Some (s\<lparr>sram := main_mem s (page_field (chip s) (wire_addr (addr_bytes (density s) page 0))),
       busy_left := 0, ss_low := False, rx := [],
       trace := trace s @ polls (busy_left s) @
         [txn_clear (density s), [0xD7, 0x00], txn_fetch (density s) page, txn_wait (t_busy s)]\<rparr>)"
proof -
  obtain f where "clearBuffer 0 s = s\<lparr>sram := f, busy_left := 0, ss_low := False, rx := [],
     trace := trace s @ polls (busy_left s) @ [txn_clear (density s)]\<rparr>"
    using clearBuffer_eq by blast
  then show ?thesis
    by (simp add: getPageToBuf_def command_addr_eq txn_fetch_def txn_wait_def polls_def
        unselect_fetch[where bs = "addr_bytes (density s) page 0"] waitUntilBusy_eq)
qed

lemma eraseBlock_eq:
  "eraseBlock block s =
     Some (s\<lparr>main_mem := (\<lambda>p. if p div 8 =
           page_field (chip s) (wire_addr (addr_bytes (density s) (push_bit 3 block) 0)) div 8
         then (\<lambda>_. 0xFF) else main_mem s p),
       busy_left := 0, ss_low := False, rx := [],
       trace := trace s @ polls (busy_left s) @
         [txn_erase (density s) block, txn_wait (t_busy s)]\<rparr>)"
  by (simp add: eraseBlock_def command_addr_eq txn_erase_def txn_wait_def
      unselect_erase[where bs = "addr_bytes (density s) (push_bit 3 block) 0"] waitUntilBusy_eq
      cong: if_cong)

lemma ucast_ucast_16_32 [simp]: "(ucast (ucast (p :: 16 word) :: 32 word) :: 16 word) = p"
  by (rule ucast_up_ucast_id) (simp add: is_up)

lemma startContWrite_eq:
  "startContWrite a s =
     Some (s\<lparr>cur_page_in_buf := ucast (addressToPage a s),
       sram := main_mem s
         (page_field (chip s) (wire_addr (addr_bytes (density s) (addressToPage a s) 0))),
       busy_left := 0, ss_low := False, rx := [],
       trace := trace s @ polls (busy_left s) @
         [txn_clear (density s), [0xD7, 0x00], txn_fetch (density s) (addressToPage a s),
          txn_wait (t_busy s)]\<rparr>)"
  by (simp add: startContWrite_def getPageToBuf_eq addressToPage_def)

lemma stopContWrite_eq:
  "stopContWrite s =
     s\<lparr>main_mem := (main_mem s)
         (page_field (chip s) (wire_addr (addr_bytes (density s) (ucast (cur_page_in_buf s)) 0))
            := sram s),
       busy_left := t_busy s, ss_low := False, rx := [],
       trace := trace s @ polls (busy_left s)
         @ [txn_program (density s) (ucast (cur_page_in_buf s))]\<rparr>"
  by (simp add: stopContWrite_def programBufToPage_eq)

lemma writeContByte_same:
  assumes "cur_page_in_buf s = ucast (addressToPage a s)"
  shows "writeContByte a b s =
     Some (s\<lparr>sram := (sram s)
         (byte_field (chip s) (wire_addr (addr_bytes (density s) 0 (addressToByteInPage a s)))
            mod chip_page_bytes (chip s) := NOT b),
       busy_left := 0, ss_low := False, rx := [],
       trace := trace s @ polls (busy_left s)
         @ [txn_bufwrite (density s) (addressToByteInPage a s) b]\<rparr>)"
  using assms by (simp add: writeContByte_def writeByteToBuffer_eq)

lemma writeContByte_cross:
  assumes "cur_page_in_buf s \<noteq> ucast (addressToPage a s)"
  shows "writeContByte a b s =
     Some (s\<lparr>cur_page_in_buf := ucast (addressToPage a s),
       main_mem := (main_mem s)
         (page_field (chip s) (wire_addr (addr_bytes (density s) (ucast (cur_page_in_buf s)) 0))
            := sram s),
       sram := (((main_mem s)
         (page_field (chip s) (wire_addr (addr_bytes (density s) (ucast (cur_page_in_buf s)) 0))
            := sram s))
          (page_field (chip s) (wire_addr (addr_bytes (density s) (addressToPage a s) 0))))
         (byte_field (chip s) (wire_addr (addr_bytes (density s) 0 (addressToByteInPage a s)))
            mod chip_page_bytes (chip s) := NOT b),
       busy_left := 0, ss_low := False, rx := [],
       trace := trace s @ polls (busy_left s)
         @ [txn_program (density s) (ucast (cur_page_in_buf s))]
         @ polls (t_busy s)
         @ [txn_clear (density s), [0xD7, 0x00], txn_fetch (density s) (addressToPage a s),
            txn_wait (t_busy s), [0xD7, 0x00],
            txn_bufwrite (density s) (addressToByteInPage a s) b]\<rparr>)"
  using assms
  by (simp add: writeContByte_def Let_def programBufToPage_eq getPageToBuf_eq
      writeByteToBuffer_eq addressToPage_def addressToByteInPage_def polls_def)

lemma wire_addr_append [simp]: "3 \<le> length bs \<Longrightarrow> wire_addr (bs @ zs) = wire_addr bs"
  by (auto simp: wire_addr_def nth_append)

lemma dummy_transfers_eq:
  "ss_low s \<Longrightarrow> rx s = 0xE8 # bs \<Longrightarrow> busy_left s = 0 \<Longrightarrow> length bs + n \<le> 7 \<Longrightarrow>
   dummy_transfers n s = s\<lparr>rx := rx s @ replicate n 0x00\<rparr>"
proof (induction n arbitrary: s bs)
  case 0
  then show ?case by simp
next
  case (Suc n)
  let ?s' = "snd (SPI_transfer 0x00 s)"
  from Suc.prems have *: "?s' = s\<lparr>rx := rx s @ [0x00]\<rparr>"
    by (simp add: SPI_transfer_read[where bs = bs])
  have "dummy_transfers n ?s' = ?s'\<lparr>rx := rx ?s' @ replicate n 0x00\<rparr>"
    by (rule Suc.IH[where bs = "bs @ [0x00]"]) (use Suc.prems in \<open>simp_all add: *\<close>)
  then show ?case
    by (simp add: * replicate_app_Cons_same)
qed

lemma readBytes_loop_eq:
  "ss_low s \<Longrightarrow> rx s = 0xE8 # bs \<Longrightarrow> busy_left s = 0 \<Longrightarrow> length bs = 7 + j \<Longrightarrow>
   readBytes_loop n s =
     (map (\<lambda>k. NOT (array_read (chip s) (main_mem s) (wire_addr bs) (j + k))) [0..<n],
      s\<lparr>rx := rx s @ replicate n 0x00\<rparr>)"
proof (induction n arbitrary: s bs j)
  case 0
  then show ?case by simp
next
  case (Suc n)
  from Suc.prems have *: "SPI_transfer 0x00 s =
      (array_read (chip s) (main_mem s) (wire_addr bs) j, s\<lparr>rx := rx s @ [0x00]\<rparr>)"
    by (simp add: SPI_transfer_read[where bs = bs])
  let ?s' = "s\<lparr>rx := rx s @ [0x00]\<rparr>"
  have "readBytes_loop n ?s' =
     (map (\<lambda>k. NOT (array_read (chip ?s') (main_mem ?s') (wire_addr (bs @ [0x00])) (Suc j + k)))
        [0..<n],
      ?s'\<lparr>rx := rx ?s' @ replicate n 0x00\<rparr>)"
    by (rule Suc.IH) (use Suc.prems in simp_all)
  moreover have "map (\<lambda>k. NOT (array_read (chip s) (main_mem s) (wire_addr bs) (j + k))) [0..<Suc n]
      = NOT (array_read (chip s) (main_mem s) (wire_addr bs) j)
        # map (\<lambda>k. NOT (array_read (chip s) (main_mem s) (wire_addr bs) (Suc j + k))) [0..<n]"
    by (subst map_upt_Suc) simp
  ultimately show ?case
    using Suc.prems by (simp add: * replicate_app_Cons_same del: upt_Suc)
qed

lemma read_setup_eq:
  "dummy_transfers 4 (send3bytesAddr page start_byte (command 0xE8 s)) =
     s\<lparr>busy_left := 0, ss_low := True,
       rx := 0xE8 # addr_bytes (density s) page start_byte @ replicate 4 0x00,
       trace := trace s @ polls (busy_left s)\<rparr>"
  by (subst dummy_transfers_eq[where bs = "addr_bytes (density s) page start_byte"])
     (simp_all add: command_addr_eq)

lemma readBytes_eq:
  "readBytes a len s =
     (map (\<lambda>k. NOT (array_read (chip s) (main_mem s)
             (wire_addr (addr_bytes (density s) (addressToPage a s) (addressToByteInPage a s))) k))
        [0..<unat len],
      s\<lparr>busy_left := 0, ss_low := False, rx := [],
        trace := trace s @ polls (busy_left s)
          @ [txn_read (density s) (addressToPage a s) (addressToByteInPage a s) (unat len)]\<rparr>)"
proof -
  let ?p = "addressToPage a s" and ?b = "addressToByteInPage a s"
  let ?s3 = "dummy_transfers 4 (send3bytesAddr ?p ?b (command 0xE8 s))"
  have s3: "?s3 = s\<lparr>busy_left := 0, ss_low := True,
       rx := 0xE8 # addr_bytes (density s) ?p ?b @ replicate 4 0x00,
       trace := trace s @ polls (busy_left s)\<rparr>"
    by (rule read_setup_eq)
  have loop: "readBytes_loop (unat len) ?s3 =
     (map (\<lambda>k. NOT (array_read (chip ?s3) (main_mem ?s3)
            (wire_addr (addr_bytes (density s) ?p ?b @ replicate 4 0x00)) (0 + k))) [0..<unat len],
      ?s3\<lparr>rx := rx ?s3 @ replicate (unat len) 0x00\<rparr>)"
    by (rule readBytes_loop_eq) (simp_all add: s3)
  have pa: "addressToPage a (command 0xE8 s) = ?p" "addressToByteInPage a (command 0xE8 s) = ?b"
    by (simp_all add: addressToPage_def addressToByteInPage_def command_eq)
  show ?thesis
    unfolding readBytes_def Let_def pa loop
    by (simp add: s3 unselect_other[where opc = "0xE8"] txn_read_def)
qed

lemma readByte_eq:
  "readByte a s =
     (array_read (chip s) (main_mem s)
        (wire_addr (addr_bytes (density s) (addressToPage a s) (addressToByteInPage a s))) 0,
      s\<lparr>busy_left := 0, ss_low := False, rx := [],
        trace := trace s @ polls (busy_left s)
          @ [txn_read (density s) (addressToPage a s) (addressToByteInPage a s) 1]\<rparr>)"
proof -
  let ?p = "addressToPage a s" and ?b = "addressToByteInPage a s"
  let ?s3 = "dummy_transfers 4 (send3bytesAddr ?p ?b (command 0xE8 s))"
  have s3: "?s3 = s\<lparr>busy_left := 0, ss_low := True,
       rx := 0xE8 # addr_bytes (density s) ?p ?b @ replicate 4 0x00,
       trace := trace s @ polls (busy_left s)\<rparr>"
    by (rule read_setup_eq)
  have last: "SPI_transfer 0x00 ?s3 =
      (array_read (chip s) (main_mem s) (wire_addr (addr_bytes (density s) ?p ?b)) 0,
       ?s3\<lparr>rx := rx ?s3 @ [0x00]\<rparr>)"
    by (subst SPI_transfer_read[where bs = "addr_bytes (density s) ?p ?b @ replicate 4 0x00"])
       (simp_all add: s3)
  have pa: "addressToPage a (command 0xE8 s) = ?p" "addressToByteInPage a (command 0xE8 s) = ?b"
    by (simp_all add: addressToPage_def addressToByteInPage_def command_eq)
  show ?thesis
    unfolding readByte_def Let_def pa last
    by (simp add: s3 unselect_other[where opc = "0xE8"] txn_read_def)
qed

lemma page_bytes_bounds: "chip_page_bytes c \<le> 1056" "264 \<le> chip_page_bytes c"
  by (cases c; simp add: chip_page_bytes_def AT45_PageBytes_def)+

lemma unat_page_bytes: "unat (of_nat (chip_page_bytes c) :: 32 word) = chip_page_bytes c"
proof -
  have "chip_page_bytes c < 2 ^ LENGTH(32)"
    using page_bytes_bounds(1)[of c] by simp
  then show ?thesis
    by (simp only: unat_of_nat mod_less)
qed

lemma addressToByteInPage_unat:
  assumes "matched s"
  shows "unat (addressToByteInPage a s) = unat a mod chip_page_bytes (chip s)"
proof -
  let ?pb = "chip_page_bytes (chip s)"
  have "unat (a mod of_nat ?pb) = unat a mod ?pb"
    by (simp add: unat_mod_distrib unat_page_bytes)
  moreover have "unat a mod ?pb < 65536"
    using mod_less_divisor[of ?pb "unat a"] page_bytes_bounds[of "chip s"] by linarith
  ultimately have "take_bit 16 (unat (a mod of_nat ?pb)) = unat a mod ?pb"
    by (simp add: take_bit_nat_eq_self)
  then show ?thesis
    using assms by (simp add: addressToByteInPage_def matched_def tables_of_chip unsigned_ucast_eq)
qed

lemma addressToPage_unat:
  assumes "matched s" and "unat a < dev_bytes (chip s)"
  shows "unat (addressToPage a s) = unat a div chip_page_bytes (chip s)"
    and "unat a div chip_page_bytes (chip s) < chip_pages (chip s)"
proof -
  let ?pb = "chip_page_bytes (chip s)"
  show lt: "unat a div ?pb < chip_pages (chip s)"
    using assms(2) chip_geometry(4)[of "chip s"]
    by (simp add: dev_bytes_def less_mult_imp_div_less)
  have "unat (a div of_nat ?pb) = unat a div ?pb"
    by (simp add: unat_div_distrib unat_page_bytes)
  moreover have "unat a div ?pb < 65536"
    using lt chip_geometry(2)[of "chip s"] by linarith
  ultimately have "take_bit 16 (unat (a div of_nat ?pb)) = unat a div ?pb"
    by (simp add: take_bit_nat_eq_self)
  then show "unat (addressToPage a s) = unat a div ?pb"
    using assms by (simp add: addressToPage_def matched_def tables_of_chip unsigned_ucast_eq)
qed

lemma addressToPage_unat_mod:
  assumes "matched s"
  shows "unat (addressToPage a s) = unat a div chip_page_bytes (chip s) mod 65536"
  using assms
  by (simp add: addressToPage_def matched_def tables_of_chip unsigned_ucast_eq
      unat_div_distrib unat_page_bytes take_bit_eq_mod)

lemma unat_recombine:
  fixes off page :: "16 word"
  assumes "pb \<le> 1056"
  shows "unat (ucast off + ucast page * (of_nat pb :: 32 word)) = unat off + unat page * pb"
proof -
  have pb: "unat (of_nat pb :: 32 word) = pb"
  proof -
    have "pb < 2 ^ LENGTH(32)" using assms by simp
    then show ?thesis by (simp only: unat_of_nat mod_less)
  qed
  have "unat page * pb \<le> 65535 * 1056"
    using unat_lt_65536[of page] assms by (intro mult_mono) simp_all
  then have prod: "unat page * pb < 69206016"
    by simp
  then have "unat (ucast page :: 32 word) * unat (of_nat pb :: 32 word) < 2 ^ LENGTH(32)"
    by (simp add: pb unat_ucast_16_32)
  then have m: "unat (ucast page * (of_nat pb :: 32 word)) = unat page * pb"
    by (simp only: unat_mult_lem[THEN iffD1] pb unat_ucast_16_32)
  have "unat (ucast off :: 32 word) + unat (ucast page * (of_nat pb :: 32 word)) < 2 ^ LENGTH(32)"
    using prod unat_lt_65536[of off] by (simp add: m unat_ucast_16_32)
  then show ?thesis
    by (simp only: unat_add_lem[THEN iffD1] m unat_ucast_16_32)
qed

lemma unat_ucast_32_16:
  fixes w :: "32 word"
  assumes "unat w < 65536"
  shows "unat (ucast w :: 16 word) = unat w"
  using assms by (simp add: unsigned_ucast_eq take_bit_nat_eq_self)

lemma staged_page_wire:
  assumes "session_ok s"
  shows "page_field (chip s) (wire_addr (addr_bytes (density s) (ucast (cur_page_in_buf s)) 0))
    = unat (cur_page_in_buf s)"
proof -
  have "unat (cur_page_in_buf s) < 65536"
    using assms chip_geometry(2)[of "chip s"] by (simp add: session_ok_def)
  then have "unat (ucast (cur_page_in_buf s) :: 16 word) = unat (cur_page_in_buf s)"
    by (rule unat_ucast_32_16)
  then show ?thesis
    using assms page_field_wire[of "ucast (cur_page_in_buf s)" "chip s" 0]
    by (simp add: session_ok_def matched_def)
qed

lemma address_page_wire:
  assumes "matched s" and "unat a < dev_bytes (chip s)"
  shows "page_field (chip s) (wire_addr (addr_bytes (density s) (addressToPage a s) 0))
    = unat a div chip_page_bytes (chip s)"
  using assms page_field_wire[of "addressToPage a s" "chip s" 0] addressToPage_unat[of s a]
  by (simp add: matched_def)

lemma address_byte_wire:
  assumes "matched s"
  shows "byte_field (chip s) (wire_addr (addr_bytes (density s) 0 (addressToByteInPage a s)))
    = unat a mod chip_page_bytes (chip s)"
proof -
  let ?pb = "chip_page_bytes (chip s)"
  have "unat a mod ?pb < ?pb"
    using chip_geometry(4)[of "chip s"] by simp
  then have "unat (addressToByteInPage a s) < 2 ^ chip_bits (chip s)"
    using chip_geometry(3)[of "chip s"] assms by (simp add: addressToByteInPage_unat)
  then show ?thesis
    using assms byte_field_wire[of 0 "chip s" "addressToByteInPage a s"]
      chip_geometry(5)[of "chip s"]
    by (simp add: matched_def addressToByteInPage_unat)
qed

lemma staged_page_eq_iff:
  assumes "session_ok s" and "unat a < dev_bytes (chip s)"
  shows "cur_page_in_buf s = ucast (addressToPage a s)
    \<longleftrightarrow> unat (cur_page_in_buf s) = unat a div chip_page_bytes (chip s)"
proof -
  have "unat (ucast (addressToPage a s) :: 32 word) = unat a div chip_page_bytes (chip s)"
    using assms by (simp add: unat_ucast_16_32 addressToPage_unat session_ok_def)
  then show ?thesis
    by (metis word_unat_eq_iff)
qed

lemma linear_split:
  fixes pb :: nat
  assumes "0 < pb"
  shows "n div pb = a div pb \<and> n mod pb = a mod pb \<longleftrightarrow> n = a"
  by (metis div_mult_mod_eq)

lemma writeContByte_session:
  assumes ok: "session_ok s" and a: "unat a < dev_bytes (chip s)"
  shows "\<exists>s'. writeContByte a b s = Some s' \<and> session_ok s' \<and> chip s' = chip s
    \<and> t_busy s' = t_busy s
    \<and> unat (cur_page_in_buf s') = unat a div chip_page_bytes (chip s)
    \<and> staged s' = (staged s)(unat a := NOT b)"
proof -
  let ?pb = "chip_page_bytes (chip s)"
  have m: "matched s"
    using ok by (simp add: session_ok_def)
  have pos: "0 < ?pb"
    by (rule chip_geometry(4))
  have off: "unat a mod ?pb < ?pb"
    using pos by simp
  have pg: "unat a div ?pb < chip_pages (chip s)"
    using m a by (rule addressToPage_unat(2))
  show ?thesis
  proof (cases "cur_page_in_buf s = ucast (addressToPage a s)")
    case True
    then have cur: "unat (cur_page_in_buf s) = unat a div ?pb"
      using ok a by (simp add: staged_page_eq_iff)
    let ?s' = "s\<lparr>sram := (sram s)(unat a mod ?pb := NOT b),
       busy_left := 0, ss_low := False, rx := [],
       trace := trace s @ polls (busy_left s)
         @ [txn_bufwrite (density s) (addressToByteInPage a s) b]\<rparr>"
    have run: "writeContByte a b s = Some ?s'"
      using m off by (simp add: writeContByte_same[OF True] address_byte_wire)
    have "staged ?s' n = ((staged s)(unat a := NOT b)) n" for n
      using linear_split[OF pos, of n "unat a"]
      by (auto simp: staged_def flat_def cur)
    then have "staged ?s' = (staged s)(unat a := NOT b)"
      by (rule ext)
    moreover have "session_ok ?s'"
      using ok by (simp add: session_ok_def matched_def)
    ultimately show ?thesis
      using run cur by simp
  next
    case False
    then have cur: "unat (cur_page_in_buf s) \<noteq> unat a div ?pb"
      using ok a by (simp add: staged_page_eq_iff)
    let ?P = "unat (cur_page_in_buf s)" and ?P' = "unat a div ?pb"
    let ?M = "(main_mem s)(?P := sram s)"
    let ?s' = "s\<lparr>cur_page_in_buf := ucast (addressToPage a s),
       main_mem := ?M,
       sram := (?M ?P')(unat a mod ?pb := NOT b),
       busy_left := 0, ss_low := False, rx := [],
       trace := trace s @ polls (busy_left s)
         @ [txn_program (density s) (ucast (cur_page_in_buf s))]
         @ polls (t_busy s)
         @ [txn_clear (density s), [0xD7, 0x00], txn_fetch (density s) (addressToPage a s),
            txn_wait (t_busy s), [0xD7, 0x00],
            txn_bufwrite (density s) (addressToByteInPage a s) b]\<rparr>"
    have run: "writeContByte a b s = Some ?s'"
      using m a ok off
      by (simp add: writeContByte_cross[OF False] address_byte_wire address_page_wire
          staged_page_wire)
    have cur': "unat (cur_page_in_buf ?s') = ?P'"
      using m a by (simp add: unat_ucast_16_32 addressToPage_unat)
    have "staged ?s' n = ((staged s)(unat a := NOT b)) n" for n
      using linear_split[OF pos, of n "unat a"] cur
      by (auto simp: staged_def flat_def unat_ucast_16_32 addressToPage_unat[OF m a])
    then have "staged ?s' = (staged s)(unat a := NOT b)"
      by (rule ext)
    moreover have "session_ok ?s'"
      using ok pg cur' by (simp add: session_ok_def matched_def)
    ultimately show ?thesis
      using run cur' by simp
  qed
qed

lemma store_bytes_apply:
  "store_bytes f n bs m = (if n \<le> m \<and> m < n + length bs then NOT (bs ! (m - n)) else f m)"
proof (induction bs arbitrary: f n)
  case Nil
  then show ?case by auto
next
  case (Cons b bs)
  have "store_bytes (f(n := NOT b)) (Suc n) bs m =
      (if Suc n \<le> m \<and> m < Suc n + length bs then NOT (bs ! (m - Suc n))
       else (f(n := NOT b)) m)"
    by (rule Cons.IH)
  then show ?case
    by (auto simp: nth_Cons' Suc_diff_le)
qed

lemma startContWrite_session:
  assumes m: "matched s" and a: "unat a < dev_bytes (chip s)"
  shows "\<exists>s'. startContWrite a s = Some s' \<and> session_ok s' \<and> chip s' = chip s
    \<and> t_busy s' = t_busy s
    \<and> unat (cur_page_in_buf s') = unat a div chip_page_bytes (chip s)
    \<and> staged s' = flat s"
proof -
  let ?pb = "chip_page_bytes (chip s)"
  let ?s' = "s\<lparr>cur_page_in_buf := ucast (addressToPage a s),
       sram := main_mem s (unat a div ?pb),
       busy_left := 0, ss_low := False, rx := [],
       trace := trace s @ polls (busy_left s) @
         [txn_clear (density s), [0xD7, 0x00], txn_fetch (density s) (addressToPage a s),
          txn_wait (t_busy s)]\<rparr>"
  have run: "startContWrite a s = Some ?s'"
    using m a by (simp add: startContWrite_eq address_page_wire)
  have cur: "unat (cur_page_in_buf ?s') = unat a div ?pb"
    using m a by (simp add: unat_ucast_16_32 addressToPage_unat)
  have "staged ?s' n = flat s n" for n
    by (simp add: staged_def flat_def unat_ucast_16_32 addressToPage_unat[OF m a])
  then have "staged ?s' = flat s"
    by (rule ext)
  moreover have "session_ok ?s'"
    using m cur addressToPage_unat(2)[OF m a] by (simp add: session_ok_def matched_def)
  ultimately show ?thesis
    using run cur by simp
qed

lemma stopContWrite_session:
  assumes "session_ok s"
  shows "flat (stopContWrite s) = staged s" and "matched (stopContWrite s)"
    and "chip (stopContWrite s) = chip s"
proof -
  have "flat (stopContWrite s) n = staged s n" for n
    using assms by (simp add: stopContWrite_eq staged_page_wire flat_def staged_def)
  then show "flat (stopContWrite s) = staged s"
    by (rule ext)
  show "matched (stopContWrite s)" "chip (stopContWrite s) = chip s"
    using assms by (simp_all add: stopContWrite_eq session_ok_def matched_def)
qed

lemma dev_bytes_bound: "dev_bytes c \<le> 8650752"
proof -
  have "chip_pages c * chip_page_bytes c \<le> 8192 * 1056"
    using chip_geometry(2)[of c] page_bytes_bounds(1)[of c] by (rule mult_le_mono)
  then show ?thesis
    by (simp add: dev_bytes_def)
qed

lemma unat_addr_plus:
  fixes addr :: "32 word" and i :: "16 word"
  assumes "unat addr + unat i < 4294967296"
  shows "unat (addr + ucast i) = unat addr + unat i"
proof -
  have "unat addr + unat (ucast i :: 32 word) < 2 ^ LENGTH(32)"
    using assms by (simp add: unat_ucast_16_32)
  then show ?thesis
    by (simp only: unat_add_lem[THEN iffD1] unat_ucast_16_32)
qed

lemma unat_succ_16:
  fixes i :: "16 word"
  assumes "unat i < 65535"
  shows "unat (i + 1) = Suc (unat i)"
proof -
  have "unat i + unat (1 :: 16 word) < 2 ^ LENGTH(16)"
    using assms by simp
  then have "unat (i + 1) = unat i + unat (1 :: 16 word)"
    by (simp only: unat_add_lem[THEN iffD1])
  then show ?thesis by simp
qed

lemma writeBytes_loop_session:
  assumes "session_ok s"
    and "unat addr + unat i + length bs \<le> dev_bytes (chip s)"
    and "unat i + length bs < 65536"
  shows "\<exists>s'. writeBytes_loop addr i bs s = Some s' \<and> session_ok s' \<and> chip s' = chip s
    \<and> t_busy s' = t_busy s
    \<and> staged s' = store_bytes (staged s) (unat addr + unat i) bs"
  using assms
proof (induction bs arbitrary: s i)
  case Nil
  then show ?case by simp
next
  case (Cons b bs)
  let ?a = "addr + ucast i"
  have "unat addr + unat i < 4294967296"
    using Cons.prems(2) dev_bytes_bound[of "chip s"] by simp
  then have a: "unat ?a = unat addr + unat i"
    by (rule unat_addr_plus)
  then have "unat ?a < dev_bytes (chip s)"
    using Cons.prems(2) by simp
  with Cons.prems(1) obtain s1 where
    s1: "writeContByte ?a b s = Some s1" "session_ok s1" "chip s1 = chip s"
      "t_busy s1 = t_busy s" "staged s1 = (staged s)(unat ?a := NOT b)"
    using writeContByte_session[of s ?a b] by blast
  have i: "unat (i + 1) = Suc (unat i)"
    using Cons.prems(3) by (intro unat_succ_16) simp
  have "\<exists>s'. writeBytes_loop addr (i + 1) bs s1 = Some s' \<and> session_ok s' \<and> chip s' = chip s1
    \<and> t_busy s' = t_busy s1
    \<and> staged s' = store_bytes (staged s1) (unat addr + unat (i + 1)) bs"
    using s1 Cons.prems by (intro Cons.IH) (simp_all add: i)
  then show ?case
    using s1 by (simp add: i a)
qed


lemma array_read_flat:
  assumes m: "matched s" and a: "unat a + k < dev_bytes (chip s)"
  shows "array_read (chip s) (main_mem s)
      (wire_addr (addr_bytes (density s) (addressToPage a s) (addressToByteInPage a s))) k
    = flat s (unat a + k)"
proof -
  let ?c = "chip s"
  let ?pb = "chip_page_bytes ?c"
  let ?w = "wire_addr (addr_bytes (density s) (addressToPage a s) (addressToByteInPage a s))"
  have pos: "0 < ?pb"
    by (rule chip_geometry(4))
  have a': "unat a < dev_bytes ?c"
    using a by simp
  have p: "unat (addressToPage a s) = unat a div ?pb" "unat a div ?pb < chip_pages ?c"
    using m a' by (rule addressToPage_unat)+
  have b: "unat (addressToByteInPage a s) = unat a mod ?pb"
    using m by (rule addressToByteInPage_unat)
  have b2: "unat (addressToByteInPage a s) < 2 ^ chip_bits ?c"
    using chip_geometry(3)[of ?c] mod_less_divisor[OF pos, of "unat a"] by (simp add: b)
  have pf: "page_field ?c ?w = unat a div ?pb"
    using m p b2 page_field_wire[of "addressToPage a s" ?c "addressToByteInPage a s"]
    by (simp add: matched_def)
  have bf: "byte_field ?c ?w = unat a mod ?pb"
    using m p b b2 byte_field_wire[of "addressToPage a s" ?c "addressToByteInPage a s"]
    by (simp add: matched_def)
  have d: "unat a div ?pb + (unat a mod ?pb + k) div ?pb = (unat a + k) div ?pb"
    by (simp add: div_add1_eq[of "unat a" k ?pb] div_add1_eq[of "unat a mod ?pb" k ?pb]
        mod_div_trivial)
  have r: "(unat a mod ?pb + k) mod ?pb = (unat a + k) mod ?pb"
    by (simp add: mod_add_left_eq)
  have "(unat a + k) div ?pb < chip_pages ?c"
    using a pos by (simp add: dev_bytes_def less_mult_imp_div_less)
  then show ?thesis
    by (simp add: array_read_def pf bf d r flat_def)
qed

lemma readBytes_flat:
  assumes m: "matched s" and a: "unat a + unat len \<le> dev_bytes (chip s)"
  shows "fst (readBytes a len s) = map (\<lambda>k. NOT (flat s (unat a + k))) [0..<unat len]"
  using assms by (simp add: readBytes_eq array_read_flat)

lemma readByte_flat:
  assumes m: "matched s" and a: "unat a < dev_bytes (chip s)"
  shows "fst (readByte a s) = flat s (unat a)"
  using assms array_read_flat[of s a 0] by (simp add: readByte_eq)

lemma unat_of_nat_16:
  assumes "n < 65536"
  shows "unat (of_nat n :: 16 word) = n"
proof -
  have "n < 2 ^ LENGTH(16)" using assms by simp
  then show ?thesis by (simp only: unat_of_nat mod_less)
qed

lemma writeBytes_session:
  assumes m: "matched s" and len: "length data < 65536"
    and a: "unat addr < dev_bytes (chip s)"
    and span: "unat addr + length data \<le> dev_bytes (chip s)"
  shows "\<exists>s'. writeBytes addr data s = Some s' \<and> matched s' \<and> chip s' = chip s
    \<and> flat s' = store_bytes (flat s) (unat addr) data"
proof -
  from m a obtain s1 where
    s1: "startContWrite addr s = Some s1" "session_ok s1" "chip s1 = chip s" "staged s1 = flat s"
    using startContWrite_session[of s addr] by blast
  have "\<exists>s'. writeBytes_loop addr 0 data s1 = Some s' \<and> session_ok s' \<and> chip s' = chip s1
    \<and> t_busy s' = t_busy s1
    \<and> staged s' = store_bytes (staged s1) (unat addr + unat (0 :: 16 word)) data"
    using s1 span len by (intro writeBytes_loop_session) simp_all
  then obtain s2 where
    s2: "writeBytes_loop addr 0 data s1 = Some s2" "session_ok s2" "chip s2 = chip s"
      "staged s2 = store_bytes (flat s) (unat addr) data"
    using s1 by auto
  have "writeBytes addr data s = Some (stopContWrite s2)"
    by (simp add: writeBytes_def s1 s2)
  then show ?thesis
    using s2 stopContWrite_session[OF s2(2)] by simp
qed

lemma writeByte_session:
  assumes m: "matched s" and a: "unat addr < dev_bytes (chip s)"
  shows "\<exists>s'. writeByte addr v s = Some s' \<and> matched s' \<and> chip s' = chip s
    \<and> flat s' = (flat s)(unat addr := NOT v)"
proof -
  from m a obtain s1 where
    s1: "startContWrite addr s = Some s1" "session_ok s1" "chip s1 = chip s" "staged s1 = flat s"
    using startContWrite_session[of s addr] by blast
  from s1 a obtain s2 where
    s2: "writeContByte addr v s1 = Some s2" "session_ok s2" "chip s2 = chip s"
      "staged s2 = (flat s)(unat addr := NOT v)"
    using writeContByte_session[of s1 addr v] by auto
  have "writeByte addr v s = Some (stopContWrite s2)"
    by (simp add: writeByte_def s1 s2)
  then show ?thesis
    using s2 stopContWrite_session[OF s2(2)] by simp
qed

lemma device_cmds_simps [simp]:
  "device_cmds [] = []"
  "device_cmds (xs @ ys) = device_cmds xs @ device_cmds ys"
  "device_cmds (polls n) = []"
  "device_cmds ([0xD7, 0x00] # xs) = device_cmds xs"
  "device_cmds (txn_wait n # xs) = device_cmds xs"
  "device_cmds (txn_clear d # xs) = txn_clear d # device_cmds xs"
  "device_cmds (txn_fetch d p # xs) = txn_fetch d p # device_cmds xs"
  "device_cmds (txn_program d p # xs) = txn_program d p # device_cmds xs"
  "device_cmds (txn_bufwrite d b v # xs) = txn_bufwrite d b v # device_cmds xs"
  "device_cmds (txn_erase d p # xs) = txn_erase d p # device_cmds xs"
  "device_cmds (txn_read d p b k # xs) = txn_read d p b k # device_cmds xs"
  by (simp_all add: device_cmds_def polls_def txn_wait_def txn_clear_def txn_fetch_def
      txn_program_def txn_bufwrite_def txn_erase_def txn_read_def)

lemma startContWrite_cmds:
  "\<exists>s'. startContWrite a s = Some s' \<and> density s' = density s
     \<and> cur_page_in_buf s' = ucast (addressToPage a s)
     \<and> device_cmds (trace s') = device_cmds (trace s)
           @ [txn_clear (density s), txn_fetch (density s) (addressToPage a s)]"
  by (simp add: startContWrite_eq)

lemma writeContByte_cmds:
  "\<exists>s'. writeContByte a b s = Some s' \<and> density s' = density s
     \<and> cur_page_in_buf s' = ucast (addressToPage a s)
     \<and> device_cmds (trace s') = device_cmds (trace s)
           @ (if cur_page_in_buf s \<noteq> ucast (addressToPage a s)
              then [txn_program (density s) (ucast (cur_page_in_buf s)), txn_clear (density s),
                    txn_fetch (density s) (addressToPage a s)]
              else [])
           @ [txn_bufwrite (density s) (addressToByteInPage a s) b]"
proof (cases "cur_page_in_buf s = ucast (addressToPage a s)")
  case True
  then show ?thesis
    by (simp add: writeContByte_same)
next
  case False
  then show ?thesis
    by (simp add: writeContByte_cross)
qed

lemma stopContWrite_cmds:
  "device_cmds (trace (stopContWrite s)) = device_cmds (trace s)
     @ [txn_program (density s) (ucast (cur_page_in_buf s))]"
  "density (stopContWrite s) = density s"
  "cur_page_in_buf (stopContWrite s) = cur_page_in_buf s"
  by (simp_all add: stopContWrite_eq)




lemma unat_push_bit_3:
  fixes b :: "16 word"
  assumes "unat b < 8192"
  shows "unat (push_bit 3 b) = 8 * unat b"
proof -
  have "unat b * 8 < 2 ^ LENGTH(16)"
    using assms by simp
  then have "take_bit LENGTH(16) (unat b * 8) = unat b * 8"
    by (simp only: take_bit_nat_eq_self)
  moreover have "unat (push_bit 3 b) = take_bit LENGTH(16) (push_bit 3 (unat b))"
    by (rule unsigned_push_bit_eq)
  ultimately show ?thesis
    by (simp add: push_bit_eq_mult)
qed

lemma eraseBlock_mem:
  assumes m: "matched s" and b: "8 * unat b < chip_pages (chip s)"
  shows "eraseBlock b s = Some (after_erase b s)"
proof -
  have "unat b < 8192"
    using b chip_geometry(2)[of "chip s"] by linarith
  then have u: "unat (push_bit 3 b :: 16 word) = 8 * unat b"
    by (rule unat_push_bit_3)
  have "page_field (chip s) (wire_addr (addr_bytes (density s) (push_bit 3 b) 0)) = 8 * unat b"
    using m b page_field_wire[of "push_bit 3 b" "chip s" 0] by (simp add: matched_def u)
  then show ?thesis
    by (simp add: eraseBlock_eq after_erase_def cong: if_cong)
qed

lemma after_erase_simps [simp]:
  "matched (after_erase b s) = matched s" "chip (after_erase b s) = chip s"
  "density (after_erase b s) = density s"
  "main_mem (after_erase b s) p = (if p div 8 = unat b then (\<lambda>_. 0xFF) else main_mem s p)"
  "device_cmds (trace (after_erase b s)) = device_cmds (trace s) @ [txn_erase (density s) b]"
  by (simp_all add: after_erase_def matched_def)

lemma initialize_wait_eq:
  "initialize_wait 0 s = (status_byte (chip s) 0,
     s\<lparr>busy_left := 0, ss_low := False, rx := [], trace := trace s @ polls (busy_left s)\<rparr>)"
proof (induction "busy_left s" arbitrary: s)
  case 0
  have "initialize_wait 0 s = initialize_wait (status_byte (chip s) 0) (snd (readStatus s))"
    using 0 by (subst initialize_wait.simps) (simp add: readStatus_eq)
  also have "\<dots> = (status_byte (chip s) 0, snd (readStatus s))"
    by (subst initialize_wait.simps) (simp add: status_ready[of "chip s" 0, simplified])
  finally show ?case
    using 0 by (simp add: readStatus_eq polls_def)
next
  case (Suc n)
  let ?s' = "snd (readStatus s)"
  have b: "status_byte (chip s) (Suc n) AND 0x80 \<noteq> 0x80"
    by simp
  have "initialize_wait 0 s = initialize_wait (status_byte (chip s) (Suc n)) ?s'"
    using Suc.hyps(2)[symmetric] by (subst initialize_wait.simps) (simp add: readStatus_eq)
  also have "\<dots> = (case readStatus ?s' of (sr', s') \<Rightarrow> initialize_wait sr' s')"
    using b by (subst initialize_wait.simps) simp
  also have "\<dots> = initialize_wait 0 ?s'"
    by (subst (2) initialize_wait.simps) simp
  also have "\<dots> = (status_byte (chip ?s') 0,
     ?s'\<lparr>busy_left := 0, ss_low := False, rx := [], trace := trace ?s' @ polls (busy_left ?s')\<rparr>)"
    by (rule Suc.hyps(1)) (use Suc.hyps(2)[symmetric] in \<open>simp add: readStatus_eq\<close>)
  finally show ?case
    using Suc.hyps(2)[symmetric] by (simp add: readStatus_eq polls_def replicate_app_Cons_same)
qed

lemma status_byte_nonzero: "status_byte c n \<noteq> 0"
  by (cases c; cases "n = 0"; simp add: status_byte_def density_code_def)

lemma detected_density:
  "(ucast (signed_drop_bit 1 ((ucast (drop_bit 2 (status_byte c 0 AND 0x3C)) :: 16 word) - 3))
     :: 8 word) = of_nat (AT45Flash_value c)"
  by (cases c; simp add: status_byte_def density_code_def)

lemma detected_density_normal:
  "(ucast (signed_drop_bit (Suc 0) ((ucast (drop_bit 2 (status_byte c 0) AND 15) :: 16 word) - 3))
     :: 8 word) = of_nat (AT45Flash_value c)"
  by (cases c; simp add: status_byte_def density_code_def)

lemma AT45Flash_value_inj:
  "(of_nat (AT45Flash_value e) :: 8 word) = of_nat (AT45Flash_value c) \<longleftrightarrow> e = c"
  by (cases e; cases c; simp)

lemma initialize_loop_Suc:
  "initialize_loop (Suc n) s =
     (if expected_chip s = chip s
      then (True, s\<lparr>density := of_nat (AT45Flash_value (chip s)), busy_left := 0,
              ss_low := False, rx := [],
              trace := trace s @ [[0xD7, 0x00]] @ polls (busy_left s - 1)\<rparr>)
      else initialize_loop n (s\<lparr>busy_left := 0, ss_low := False, rx := [],
              trace := trace s @ [[0xD7, 0x00]] @ polls (busy_left s - 1)\<rparr>))"
  by (simp add: readStatus_eq status_byte_nonzero initialize_wait_eq detected_density_normal
      AT45Flash_value_inj Let_def)

lemma initialize_loop_match:
  "expected_chip s = chip s \<Longrightarrow> fst (initialize_loop (Suc n) s)
     \<and> matched (snd (initialize_loop (Suc n) s))
     \<and> chip (snd (initialize_loop (Suc n) s)) = chip s
     \<and> main_mem (snd (initialize_loop (Suc n) s)) = main_mem s
     \<and> cur_page_in_buf (snd (initialize_loop (Suc n) s)) = cur_page_in_buf s"
  by (simp add: initialize_loop_Suc matched_def del: initialize_loop.simps)


lemma initialize_matching_chip:
  assumes "expected_chip s = chip s"
  shows "initialize s = (True, (unselect s)\<lparr>density := of_nat (AT45Flash_value (chip s)),
    busy_left := 0, ss_low := False, rx := [],
    trace := trace (unselect s) @ [[0xD7, 0x00]] @ polls (busy_left (unselect s) - 1)\<rparr>)"
proof -
  have u: "expected_chip (unselect s) = chip (unselect s)" "chip (unselect s) = chip s"
    using assms by (simp_all add: unselect_def chip_execute_def split: list.split)
  have ten: "(10::nat) = Suc 9"
    by simp
  show ?thesis
    by (simp only: initialize_def ten initialize_loop_Suc u simp_thms if_True)
qed

lemma ready041_eq:
  "ready041 = (blank AT45DB041)\<lparr>expected_chip := AT45DB041, density := 2,
     cur_page_in_buf := - 1, trace := [[0xD7, 0x00], [0xD7, 0x00]]\<rparr>"
proof -
  let ?x = "(blank AT45DB041)\<lparr>expected_chip := AT45DB041, cur_page_in_buf := - 1\<rparr>"
  have s: "AT45DBFlash AT45DB041 (blank AT45DB041) = ?x"
    by (simp add: AT45DBFlash_def unselect_def blank_def)
  have "expected_chip ?x = chip ?x"
    by (simp add: blank_def)
  then have init: "initialize ?x = (True, (unselect ?x)\<lparr>density := of_nat (AT45Flash_value (chip ?x)),
    busy_left := 0, ss_low := False, rx := [],
    trace := trace (unselect ?x) @ [[0xD7, 0x00]] @ polls (busy_left (unselect ?x) - 1)\<rparr>)"
    by (rule initialize_matching_chip)
  have "ready041 = snd (initialize ?x)"
    by (simp only: ready041_def s)
  also have "\<dots> = (blank AT45DB041)\<lparr>expected_chip := AT45DB041, density := 2,
     cur_page_in_buf := - 1, trace := [[0xD7, 0x00], [0xD7, 0x00]]\<rparr>"
    by (simp only: init snd_conv) (simp add: unselect_def blank_def polls_def)
  finally show ?thesis .
qed

lemma ready041_facts:
  "matched ready041" "chip ready041 = AT45DB041" "dev_bytes AT45DB041 = 540672"
  "chip_page_bytes AT45DB041 = 264" "chip_pages AT45DB041 = 2048" "density ready041 = 2"
  "cur_page_in_buf ready041 = - 1" "main_mem ready041 = (\<lambda>_ _. 0xFF)"
  "device_cmds (trace ready041) = []"
  by (simp_all add: matched_def ready041_eq blank_def dev_bytes_def chip_pages_def
      chip_page_bytes_def AT45_PagesTotal_def AT45_PageBytes_def device_cmds_def)

lemma zeroed041_facts:
  "matched zeroed041" "chip zeroed041 = AT45DB041" "density zeroed041 = 2"
  "device_cmds (trace zeroed041) = []" "main_mem zeroed041 = (\<lambda>_ _. 0x00)"
  by (simp_all add: zeroed041_def ready041_facts matched_def)

lemma unat_of_nat_32:
  assumes "n < 4294967296"
  shows "unat (of_nat n :: 32 word) = n"
proof -
  have "n < 2 ^ LENGTH(32)" using assms by simp
  then show ?thesis by (simp only: unat_of_nat mod_less)
qed

lemma word16_of_unat: "unat (w :: 16 word) = n \<Longrightarrow> w = of_nat n"
  by auto

lemma div_mod_page:
  fixes pb :: nat
  assumes "k < pb"
  shows "(q * pb + k) div pb = q" "(q * pb + k) mod pb = k"
  using assms by simp_all

lemma writeContByte_full:
  assumes ok: "session_ok s" and a: "unat a < dev_bytes (chip s)"
  shows "\<exists>s'. writeContByte a b s = Some s' \<and> session_ok s' \<and> chip s' = chip s
    \<and> density s' = density s
    \<and> unat (cur_page_in_buf s') = unat a div chip_page_bytes (chip s)
    \<and> staged s' = (staged s)(unat a := NOT b)
    \<and> device_cmds (trace s') = device_cmds (trace s)
          @ (if unat (cur_page_in_buf s) \<noteq> unat a div chip_page_bytes (chip s)
             then [txn_program (density s) (of_nat (unat (cur_page_in_buf s))),
                   txn_clear (density s),
                   txn_fetch (density s) (of_nat (unat a div chip_page_bytes (chip s)))]
             else [])
          @ [txn_bufwrite (density s) (of_nat (unat a mod chip_page_bytes (chip s))) b]"
proof -
  have m: "matched s"
    using ok by (simp add: session_ok_def)
  have pg: "addressToPage a s = of_nat (unat a div chip_page_bytes (chip s))"
    using addressToPage_unat(1)[OF m a] by (rule word16_of_unat)
  have off: "addressToByteInPage a s = of_nat (unat a mod chip_page_bytes (chip s))"
    using addressToByteInPage_unat[OF m] by (rule word16_of_unat)
  have "unat (cur_page_in_buf s) < 65536"
    using ok chip_geometry(2)[of "chip s"] by (simp add: session_ok_def)
  then have "unat (ucast (cur_page_in_buf s) :: 16 word) = unat (cur_page_in_buf s)"
    by (rule unat_ucast_32_16)
  then have cur: "(ucast (cur_page_in_buf s) :: 16 word) = of_nat (unat (cur_page_in_buf s))"
    by (rule word16_of_unat)
  from writeContByte_session[OF ok a, of b] obtain s1 where
    s1: "writeContByte a b s = Some s1" "session_ok s1" "chip s1 = chip s"
      "unat (cur_page_in_buf s1) = unat a div chip_page_bytes (chip s)"
      "staged s1 = (staged s)(unat a := NOT b)"
    by blast
  have cond: "(cur_page_in_buf s \<noteq> ucast (addressToPage a s))
      = (unat (cur_page_in_buf s) \<noteq> unat a div chip_page_bytes (chip s))"
    using staged_page_eq_iff[OF ok a] by simp
  from writeContByte_cmds[of a b s] s1(1) have d: "density s1 = density s"
    and c: "device_cmds (trace s1) = device_cmds (trace s)
           @ (if cur_page_in_buf s \<noteq> ucast (addressToPage a s)
              then [txn_program (density s) (ucast (cur_page_in_buf s)), txn_clear (density s),
                    txn_fetch (density s) (addressToPage a s)]
              else [])
           @ [txn_bufwrite (density s) (addressToByteInPage a s) b]"
    by auto
  from c have "device_cmds (trace s1) = device_cmds (trace s)
           @ (if unat (cur_page_in_buf s) \<noteq> unat a div chip_page_bytes (chip s)
              then [txn_program (density s) (ucast (cur_page_in_buf s)), txn_clear (density s),
                    txn_fetch (density s) (addressToPage a s)]
              else [])
           @ [txn_bufwrite (density s) (addressToByteInPage a s) b]"
    unfolding cond .
  then have "device_cmds (trace s1) = device_cmds (trace s)
          @ (if unat (cur_page_in_buf s) \<noteq> unat a div chip_page_bytes (chip s)
             then [txn_program (density s) (of_nat (unat (cur_page_in_buf s))),
                   txn_clear (density s),
                   txn_fetch (density s) (of_nat (unat a div chip_page_bytes (chip s)))]
             else [])
          @ [txn_bufwrite (density s) (of_nat (unat a mod chip_page_bytes (chip s))) b]"
    unfolding pg off cur .
  with s1 d show ?thesis
    by blast
qed

lemma startContWrite_full:
  assumes m: "matched s" and a: "unat a < dev_bytes (chip s)"
  shows "\<exists>s'. startContWrite a s = Some s' \<and> session_ok s' \<and> chip s' = chip s
    \<and> density s' = density s
    \<and> unat (cur_page_in_buf s') = unat a div chip_page_bytes (chip s)
    \<and> staged s' = flat s
    \<and> device_cmds (trace s') = device_cmds (trace s)
          @ [txn_clear (density s),
             txn_fetch (density s) (of_nat (unat a div chip_page_bytes (chip s)))]"
proof -
  have pg: "addressToPage a s = of_nat (unat a div chip_page_bytes (chip s))"
    using addressToPage_unat(1)[OF m a] by (rule word16_of_unat)
  from startContWrite_session[OF m a] obtain s1 where
    s1: "startContWrite a s = Some s1" "session_ok s1" "chip s1 = chip s"
      "unat (cur_page_in_buf s1) = unat a div chip_page_bytes (chip s)" "staged s1 = flat s"
    by blast
  from startContWrite_cmds[of a s] s1(1) have d: "density s1 = density s"
    and c: "device_cmds (trace s1) = device_cmds (trace s)
           @ [txn_clear (density s), txn_fetch (density s) (addressToPage a s)]"
    by auto
  from c have "device_cmds (trace s1) = device_cmds (trace s)
          @ [txn_clear (density s),
             txn_fetch (density s) (of_nat (unat a div chip_page_bytes (chip s)))]"
    unfolding pg .
  with s1 d show ?thesis
    by blast
qed

lemma of_nat_mod_65536: "(of_nat (n mod 65536) :: 16 word) = of_nat n"
  by (simp add: word_unat_eq_iff unat_of_nat)

lemma addressToPage_of_nat:
  assumes "density s = of_nat (AT45Flash_value c)"
  shows "addressToPage a s = of_nat (unat a div chip_page_bytes c)"
proof -
  have "unat (addressToPage a s) = unat a div chip_page_bytes c mod 65536"
    using assms
    by (simp add: addressToPage_def tables_of_chip unsigned_ucast_eq
        unat_div_distrib unat_page_bytes take_bit_eq_mod)
  then have "addressToPage a s = of_nat (unat a div chip_page_bytes c mod 65536)"
    by (rule word16_of_unat)
  then show ?thesis
    by (simp only: of_nat_mod_65536)
qed

lemma addressToByteInPage_of_nat:
  assumes "density s = of_nat (AT45Flash_value c)"
  shows "addressToByteInPage a s = of_nat (unat a mod chip_page_bytes c)"
proof -
  have "unat (addressToByteInPage a s) = unat a mod chip_page_bytes c mod 65536"
    using assms
    by (simp add: addressToByteInPage_def tables_of_chip unsigned_ucast_eq
        unat_mod_distrib unat_page_bytes take_bit_eq_mod)
  then have "addressToByteInPage a s = of_nat (unat a mod chip_page_bytes c mod 65536)"
    by (rule word16_of_unat)
  then show ?thesis
    by (simp only: of_nat_mod_65536)
qed

lemma ucast_16_32_inj: "(ucast (p :: 16 word) :: 32 word) = ucast q \<longleftrightarrow> p = q"
  by (metis ucast_ucast_16_32)

lemma writeBytes_loop_cmds:
  assumes d: "density s = of_nat (AT45Flash_value c)"
    and cur: "cur_page_in_buf s = ucast cur"
    and span: "unat addr + unat i + length bs \<le> 4294967296"
    and len: "unat i + length bs < 65536"
  shows "\<exists>s'. writeBytes_loop addr i bs s = Some s' \<and> density s' = density s
    \<and> cur_page_in_buf s' =
        (if bs = [] then ucast cur
         else ucast (of_nat ((unat addr + unat i + length bs - 1) div chip_page_bytes c) :: 16 word))
    \<and> device_cmds (trace s') = device_cmds (trace s)
          @ session_cmds (density s) (chip_page_bytes c) cur (unat addr + unat i) bs"
  using assms
proof (induction bs arbitrary: s i cur)
  case Nil
  then show ?case by simp
next
  case (Cons b bs)
  let ?a = "addr + ucast i"
  let ?pb = "chip_page_bytes c"
  have "unat addr + unat i < 4294967296"
    using Cons.prems(3) by simp
  then have a: "unat ?a = unat addr + unat i"
    by (rule unat_addr_plus)
  have pg: "addressToPage ?a s = of_nat ((unat addr + unat i) div ?pb)"
    using addressToPage_of_nat[OF Cons.prems(1), of ?a] by (simp add: a)
  have off: "addressToByteInPage ?a s = of_nat ((unat addr + unat i) mod ?pb)"
    using addressToByteInPage_of_nat[OF Cons.prems(1), of ?a] by (simp add: a)
  from writeContByte_cmds[of ?a b s] obtain s1 where
    s1: "writeContByte ?a b s = Some s1" "density s1 = density s"
      "cur_page_in_buf s1 = ucast (addressToPage ?a s)"
      "device_cmds (trace s1) = device_cmds (trace s)
           @ (if cur_page_in_buf s \<noteq> ucast (addressToPage ?a s)
              then [txn_program (density s) (ucast (cur_page_in_buf s)), txn_clear (density s),
                    txn_fetch (density s) (addressToPage ?a s)]
              else [])
           @ [txn_bufwrite (density s) (addressToByteInPage ?a s) b]"
    by blast
  have i: "unat (i + 1) = Suc (unat i)"
    using Cons.prems(4) by (intro unat_succ_16) simp
  have "\<exists>s'. writeBytes_loop addr (i + 1) bs s1 = Some s' \<and> density s' = density s1
    \<and> cur_page_in_buf s' =
        (if bs = [] then ucast (addressToPage ?a s)
         else ucast (of_nat ((unat addr + unat (i + 1) + length bs - 1) div ?pb) :: 16 word))
    \<and> device_cmds (trace s') = device_cmds (trace s1)
          @ session_cmds (density s1) ?pb (addressToPage ?a s) (unat addr + unat (i + 1)) bs"
    using s1 Cons.prems by (intro Cons.IH) (simp_all add: i)
  then obtain s' where
    s': "writeBytes_loop addr (i + 1) bs s1 = Some s'" "density s' = density s"
      "cur_page_in_buf s' =
        (if bs = [] then ucast (addressToPage ?a s)
         else ucast (of_nat ((unat addr + unat (i + 1) + length bs - 1) div ?pb) :: 16 word))"
      "device_cmds (trace s') = device_cmds (trace s1)
          @ session_cmds (density s) ?pb (addressToPage ?a s) (unat addr + unat (i + 1)) bs"
    using s1(2) by auto
  have "writeBytes_loop addr i (b # bs) s = Some s'"
    by (simp add: s1 s')
  moreover have "cur_page_in_buf s' =
      ucast (of_nat ((unat addr + unat i + length (b # bs) - 1) div ?pb) :: 16 word)"
    using s'(3) by (simp add: pg i)
  moreover have "device_cmds (trace s') = device_cmds (trace s)
      @ session_cmds (density s) ?pb cur (unat addr + unat i) (b # bs)"
    using Cons.prems(2) by (simp add: s'(4) s1(4) pg off i ucast_16_32_inj eq_commute)
  ultimately show ?case
    using s'(2) by simp
qed


lemma count_op_simps [simp]:
  "count_op opc [] = 0"
  "count_op opc (xs @ ys) = count_op opc xs + count_op opc ys"
  "count_op 0x53 (txn_fetch d p # xs) = Suc (count_op 0x53 xs)"
  "count_op 0x53 (txn_program d p # xs) = count_op 0x53 xs"
  "count_op 0x53 (txn_clear d # xs) = count_op 0x53 xs"
  "count_op 0x53 (txn_bufwrite d b v # xs) = count_op 0x53 xs"
  "count_op 0x83 (txn_fetch d p # xs) = count_op 0x83 xs"
  "count_op 0x83 (txn_program d p # xs) = Suc (count_op 0x83 xs)"
  "count_op 0x83 (txn_clear d # xs) = count_op 0x83 xs"
  "count_op 0x83 (txn_bufwrite d b v # xs) = count_op 0x83 xs"
  by (simp_all add: count_op_def txn_fetch_def txn_program_def txn_clear_def txn_bufwrite_def)

lemma of_nat_Suc_neq_16: "(of_nat (Suc q) :: 16 word) \<noteq> of_nat q"
  by simp

lemma div_Suc_step:
  fixes pb :: nat
  shows "Suc n div pb = n div pb \<or> Suc n div pb = Suc (n div pb)"
  by (simp add: div_Suc)

lemma count_session_cmds:
  "count_op 0x53 (session_cmds d pb (of_nat (n div pb)) (Suc n) bs)
     = (n + length bs) div pb - n div pb
   \<and> count_op 0x83 (session_cmds d pb (of_nat (n div pb)) (Suc n) bs)
     = (n + length bs) div pb - n div pb"
proof (induction bs arbitrary: n)
  case Nil
  show ?case by simp
next
  case (Cons b bs)
  let ?rest = "session_cmds d pb (of_nat (Suc n div pb)) (Suc (Suc n)) bs"
  let ?total = "(Suc n + length bs) div pb"
  have ih: "count_op 0x53 ?rest = ?total - Suc n div pb"
    "count_op 0x83 ?rest = ?total - Suc n div pb"
    using Cons.IH[of "Suc n"] by simp_all
  have mono: "Suc n div pb \<le> ?total"
    by (simp add: div_le_mono)
  consider (same) "Suc n div pb = n div pb" | (step) "Suc n div pb = Suc (n div pb)"
    using div_Suc_step[of n pb] by blast
  then show ?case
  proof cases
    case same
    then have "session_cmds d pb (of_nat (n div pb)) (Suc n) (b # bs)
        = txn_bufwrite d (of_nat (Suc n mod pb)) b # ?rest"
      by simp
    then show ?thesis
      using ih same by simp
  next
    case step
    then have "session_cmds d pb (of_nat (n div pb)) (Suc n) (b # bs)
        = [txn_program d (of_nat (n div pb)), txn_clear d, txn_fetch d (of_nat (Suc n div pb)),
           txn_bufwrite d (of_nat (Suc n mod pb)) b] @ ?rest"
      by (simp add: of_nat_Suc_neq_16 del: of_nat_Suc)
    then have "count_op 0x53 (session_cmds d pb (of_nat (n div pb)) (Suc n) (b # bs))
          = Suc (?total - Suc n div pb)"
      "count_op 0x83 (session_cmds d pb (of_nat (n div pb)) (Suc n) (b # bs))
          = Suc (?total - Suc n div pb)"
      using ih by simp_all
    moreover have "Suc (?total - Suc n div pb) = (n + length (b # bs)) div pb - n div pb"
      using mono step by simp
    ultimately show ?thesis
      by simp
  qed
qed

lemma pages_of_range:
  fixes pb :: nat
  assumes pb: "0 < pb" and N: "0 < N"
  shows "(\<lambda>n. n div pb) ` {a..<a + N} = {a div pb..(a + N - 1) div pb}"
proof (intro set_eqI iffI)
  fix q
  assume "q \<in> (\<lambda>n. n div pb) ` {a..<a + N}"
  then obtain n where n: "a \<le> n" "n < a + N" "q = n div pb"
    by auto
  then have "a div pb \<le> n div pb" "n div pb \<le> (a + N - 1) div pb"
    by (simp_all add: div_le_mono)
  then show "q \<in> {a div pb..(a + N - 1) div pb}"
    using n by simp
next
  fix q
  assume q: "q \<in> {a div pb..(a + N - 1) div pb}"
  show "q \<in> (\<lambda>n. n div pb) ` {a..<a + N}"
  proof (cases "q = a div pb")
    case True
    then show ?thesis
      using N by (intro image_eqI[where x = a]) simp_all
  next
    case False
    then have "Suc (a div pb) \<le> q"
      using q by simp
    then have "Suc (a div pb) * pb \<le> q * pb"
      by (rule mult_le_mono1)
    moreover have "a < Suc (a div pb) * pb"
      using pb by (simp add: dividend_less_div_times)
    ultimately have lo: "a \<le> q * pb"
      by linarith
    have "q * pb \<le> (a + N - 1) div pb * pb"
      using q by (intro mult_le_mono1) simp
    also have "\<dots> \<le> a + N - 1"
      by simp
    finally have hi: "q * pb < a + N"
      using N by linarith
    show ?thesis
      using lo hi pb by (intro image_eqI[where x = "q * pb"]) simp_all
  qed
qed

lemma card_pages_of_range:
  fixes pb :: nat
  assumes pb: "0 < pb" and N: "0 < N"
  shows "card ((\<lambda>n. n div pb) ` {a..<a + N}) = Suc ((a + N - 1) div pb - a div pb)"
proof -
  have "a div pb \<le> (a + N - 1) div pb"
    using N by (intro div_le_mono) simp
  then show ?thesis
    by (simp add: pages_of_range[OF pb N] Suc_diff_le)
qed

lemma session_cmds_run:
  assumes "\<forall>k<length bs. (n + k) div pb = q"
  shows "session_cmds d pb (of_nat q) n bs
    = map (\<lambda>k. txn_bufwrite d (of_nat ((n + k) mod pb)) (bs ! k)) [0..<length bs]"
  using assms
proof (induction bs arbitrary: n)
  case Nil
  show ?case by simp
next
  case (Cons b bs)
  have q: "n div pb = q"
    using Cons.prems by auto
  have "\<forall>k<length bs. (Suc n + k) div pb = q"
    using Cons.prems by auto
  then have "session_cmds d pb (of_nat q) (Suc n) bs
      = map (\<lambda>k. txn_bufwrite d (of_nat ((Suc n + k) mod pb)) (bs ! k)) [0..<length bs]"
    by (rule Cons.IH)
  then show ?case
    by (simp add: q map_upt_Suc del: upt_Suc)
qed

lemma session_cmds_one_page:
  assumes "bs \<noteq> []" and "\<forall>k<length bs. (n + k) div pb = q"
  shows "session_cmds d pb cur n bs
    = (if of_nat q \<noteq> cur then [txn_program d cur, txn_clear d, txn_fetch d (of_nat q)] else [])
      @ map (\<lambda>k. txn_bufwrite d (of_nat ((n + k) mod pb)) (bs ! k)) [0..<length bs]"
proof -
  from assms(1) obtain b bs' where bs: "bs = b # bs'"
    by (cases bs) auto
  have q: "n div pb = q"
    using assms(2) bs by auto
  have "\<forall>k<length bs'. (Suc n + k) div pb = q"
    using assms(2) bs by auto
  then have "session_cmds d pb (of_nat q) (Suc n) bs'
      = map (\<lambda>k. txn_bufwrite d (of_nat ((Suc n + k) mod pb)) (bs' ! k)) [0..<length bs']"
    by (rule session_cmds_run)
  then show ?thesis
    by (simp add: bs q map_upt_Suc del: upt_Suc)
qed

lemma session_cmds_append:
  "session_cmds d pb cur n (xs @ ys)
    = session_cmds d pb cur n xs
      @ session_cmds d pb (if xs = [] then cur else of_nat ((n + length xs - 1) div pb))
          (n + length xs) ys"
  by (induction xs arbitrary: cur n) simp_all

lemma writeBytes_cmds:
  assumes d: "density s = of_nat (AT45Flash_value c)" and ne: "data \<noteq> []"
    and len: "length data < 65536" and span: "unat addr + length data \<le> 4294967296"
  shows "\<exists>s'. writeBytes addr data s = Some s'
    \<and> device_cmds (trace s') = device_cmds (trace s)
        @ [txn_clear (density s), txn_fetch (density s) (of_nat (unat addr div chip_page_bytes c))]
        @ session_cmds (density s) (chip_page_bytes c) (of_nat (unat addr div chip_page_bytes c))
            (unat addr) data
        @ [txn_program (density s)
             (of_nat ((unat addr + length data - 1) div chip_page_bytes c))]"
proof -
  let ?pb = "chip_page_bytes c"
  have pg: "addressToPage addr s = of_nat (unat addr div ?pb)"
    using d by (rule addressToPage_of_nat)
  from startContWrite_cmds[of addr s] obtain s1 where
    s1: "startContWrite addr s = Some s1" "density s1 = density s"
      "cur_page_in_buf s1 = ucast (of_nat (unat addr div ?pb) :: 16 word)"
      "device_cmds (trace s1) = device_cmds (trace s)
         @ [txn_clear (density s), txn_fetch (density s) (of_nat (unat addr div ?pb))]"
    unfolding pg by blast
  have "\<exists>s'. writeBytes_loop addr 0 data s1 = Some s' \<and> density s' = density s1
    \<and> cur_page_in_buf s' =
        (if data = [] then ucast (of_nat (unat addr div ?pb) :: 16 word)
         else ucast (of_nat ((unat addr + unat (0 :: 16 word) + length data - 1) div ?pb)
                :: 16 word))
    \<and> device_cmds (trace s') = device_cmds (trace s1)
          @ session_cmds (density s1) ?pb (of_nat (unat addr div ?pb))
              (unat addr + unat (0 :: 16 word)) data"
    using s1 d len span by (intro writeBytes_loop_cmds) simp_all
  then obtain s2 where
    s2: "writeBytes_loop addr 0 data s1 = Some s2" "density s2 = density s"
      "cur_page_in_buf s2 = ucast (of_nat ((unat addr + length data - 1) div ?pb) :: 16 word)"
      "device_cmds (trace s2) = device_cmds (trace s1)
          @ session_cmds (density s) ?pb (of_nat (unat addr div ?pb)) (unat addr) data"
    using s1(2) ne by auto
  have "writeBytes addr data s = Some (stopContWrite s2)"
    by (simp add: writeBytes_def s1 s2)
  then show ?thesis
    by (simp add: stopContWrite_cmds s2 s1)
qed


lemma session_cmds_300:
  assumes "length data = 300"
  shows "session_cmds d 264 0 0 data
    = map (\<lambda>k. txn_bufwrite d (of_nat k) (data ! k)) [0..<264]
      @ [txn_program d 0, txn_clear d, txn_fetch d 1]
      @ map (\<lambda>k. txn_bufwrite d (of_nat k) (data ! (264 + k))) [0..<36]"
proof -
  let ?xs = "take 264 data" and ?ys = "drop 264 data"
  have lx: "length ?xs = 264" and ly: "length ?ys = 36"
    using assms by simp_all
  have 1: "session_cmds d 264 (of_nat 0) 0 ?xs
      = map (\<lambda>k. txn_bufwrite d (of_nat ((0 + k) mod 264)) (?xs ! k)) [0..<length ?xs]"
    by (rule session_cmds_run) (simp add: lx)
  have "map (\<lambda>k. txn_bufwrite d (of_nat ((0 + k) mod 264)) (?xs ! k)) [0..<264]
      = map (\<lambda>k. txn_bufwrite d (of_nat k) (data ! k)) [0..<264]"
    by (rule map_cong) simp_all
  with 1 have 1: "session_cmds d 264 0 0 ?xs
      = map (\<lambda>k. txn_bufwrite d (of_nat k) (data ! k)) [0..<264]"
    unfolding lx by simp
  have "?ys \<noteq> []"
    using ly by auto
  moreover have "\<forall>k<length ?ys. (264 + k) div 264 = (1::nat)"
    unfolding ly by auto
  ultimately have "session_cmds d 264 0 264 ?ys
      = (if of_nat 1 \<noteq> (0 :: 16 word)
         then [txn_program d 0, txn_clear d, txn_fetch d (of_nat 1)] else [])
        @ map (\<lambda>k. txn_bufwrite d (of_nat ((264 + k) mod 264)) (?ys ! k)) [0..<length ?ys]"
    by (rule session_cmds_one_page)
  moreover have "map (\<lambda>k. txn_bufwrite d (of_nat ((264 + k) mod 264)) (?ys ! k)) [0..<36]
      = map (\<lambda>k. txn_bufwrite d (of_nat k) (data ! (264 + k))) [0..<36]"
    using assms by (intro map_cong) simp_all
  ultimately have 2: "session_cmds d 264 0 264 ?ys
      = [txn_program d 0, txn_clear d, txn_fetch d 1]
        @ map (\<lambda>k. txn_bufwrite d (of_nat k) (data ! (264 + k))) [0..<36]"
    unfolding ly by simp
  have xsne: "(?xs = []) = False"
    using lx by auto
  have "session_cmds d 264 0 0 (?xs @ ?ys)
      = session_cmds d 264 0 0 ?xs
        @ session_cmds d 264 (of_nat ((0 + length ?xs - 1) div 264)) (0 + length ?xs) ?ys"
    by (subst session_cmds_append) (simp only: xsne if_False)
  then have "session_cmds d 264 0 0 (?xs @ ?ys)
      = session_cmds d 264 0 0 ?xs @ session_cmds d 264 0 264 ?ys"
    unfolding lx by simp
  then show ?thesis
    by (simp add: 1 2)
qed

lemma addressToPage_density:
  "density s' = density s \<Longrightarrow> addressToPage a s' = addressToPage a s"
  "density s' = density s \<Longrightarrow> addressToByteInPage a s' = addressToByteInPage a s"
  by (simp_all add: addressToPage_def addressToByteInPage_def)

lemma writeByte_cmds:
  "\<exists>s'. writeByte a b s = Some s'
     \<and> device_cmds (trace s') = device_cmds (trace s)
         @ [txn_clear (density s), txn_fetch (density s) (addressToPage a s),
            txn_bufwrite (density s) (addressToByteInPage a s) b,
            txn_program (density s) (addressToPage a s)]"
proof -
  obtain s1 where s1: "startContWrite a s = Some s1" "density s1 = density s"
      "cur_page_in_buf s1 = ucast (addressToPage a s)"
      "device_cmds (trace s1) = device_cmds (trace s)
         @ [txn_clear (density s), txn_fetch (density s) (addressToPage a s)]"
    using startContWrite_cmds[of a s] by auto
  have same: "addressToPage a s1 = addressToPage a s" "addressToByteInPage a s1 = addressToByteInPage a s"
    using s1(2) by (rule addressToPage_density)+
  obtain s2 where s2: "writeContByte a b s1 = Some s2" "density s2 = density s1"
      "cur_page_in_buf s2 = ucast (addressToPage a s1)"
      "device_cmds (trace s2) = device_cmds (trace s1)
         @ (if cur_page_in_buf s1 \<noteq> ucast (addressToPage a s1)
            then [txn_program (density s1) (ucast (cur_page_in_buf s1)), txn_clear (density s1),
                  txn_fetch (density s1) (addressToPage a s1)]
            else [])
         @ [txn_bufwrite (density s1) (addressToByteInPage a s1) b]"
    using writeContByte_cmds[of a b s1] by auto
  have t2: "device_cmds (trace s2) = device_cmds (trace s)
         @ [txn_clear (density s), txn_fetch (density s) (addressToPage a s),
            txn_bufwrite (density s) (addressToByteInPage a s) b]"
    using s2(4) s1 same by simp
  have "writeByte a b s = Some (stopContWrite s2)"
    by (simp add: writeByte_def s1(1) s2(1))
  moreover have "device_cmds (trace (stopContWrite s2)) = device_cmds (trace s)
         @ [txn_clear (density s), txn_fetch (density s) (addressToPage a s),
            txn_bufwrite (density s) (addressToByteInPage a s) b,
            txn_program (density s) (addressToPage a s)]"
    using t2 s2(2,3) s1(2) same by (simp add: stopContWrite_cmds)
  ultimately show ?thesis
    by blast
qed












section \<open>The address translator\<close>

text \<open>
  C9. As the specification writes it, the round trip compares a page number with an
  address: \<open>pageOf(offsetOf(addr) + pageOf(addr) * pageBytes) = addr\<close>. On the code this
  holds for address 0 only. What holds, for every chip family and every 32-bit address:
  recombining offset and page and translating again gives the page of \<open>addr\<close>; and
  whenever the page number fits the \<open>uint16_t\<close> that \<open>addressToPage\<close> returns (always
  inside the device), \<open>offsetOf(addr) + pageOf(addr) * pageBytes\<close> is \<open>addr\<close> itself.
  The sum and the product are taken in \<open>uint32_t\<close>.
\<close>

theorem address_recombination:
  assumes "matched s"
  shows "addressToPage (ucast (addressToByteInPage addr s)
            + ucast (addressToPage addr s) * of_nat (chip_page_bytes (chip s))) s
           = addressToPage addr s
         \<and> (unat addr div chip_page_bytes (chip s) < 65536 \<longrightarrow>
              ucast (addressToByteInPage addr s)
                + ucast (addressToPage addr s) * of_nat (chip_page_bytes (chip s)) = addr)"
proof -
  let ?pb = "chip_page_bytes (chip s)"
  let ?x = "ucast (addressToByteInPage addr s) + ucast (addressToPage addr s) * (of_nat ?pb :: 32 word)"
  have pos: "0 < ?pb"
    by (rule chip_geometry(4))
  have x: "unat ?x = unat addr mod ?pb + (unat addr div ?pb mod 65536) * ?pb"
    using assms page_bytes_bounds(1)[of "chip s"]
    by (simp add: unat_recombine addressToByteInPage_unat addressToPage_unat_mod)
  have "unat ?x div ?pb = unat addr div ?pb mod 65536"
    using pos by (simp add: x)
  then have "unat (addressToPage ?x s) = unat (addressToPage addr s)"
    using assms by (simp add: addressToPage_unat_mod)
  then have 1: "addressToPage ?x s = addressToPage addr s"
    by (simp only: word_unat_eq_iff)
  have 2: "?x = addr" if "unat addr div ?pb < 65536"
  proof -
    from that have "unat ?x = unat addr"
      by (simp add: x)
    then show ?thesis
      by (simp only: word_unat_eq_iff)
  qed
  from 1 2 show ?thesis
    by blast
qed

theorem address_recombination_witness:
  "matched ready041 \<and>
   addressToPage (ucast (addressToByteInPage 1000 ready041)
            + ucast (addressToPage 1000 ready041) * of_nat (chip_page_bytes (chip ready041))) ready041
           = addressToPage 1000 ready041
   \<and> unat (1000 :: 32 word) div chip_page_bytes (chip ready041) < 65536
   \<and> ucast (addressToByteInPage 1000 ready041)
        + ucast (addressToPage 1000 ready041) * of_nat (chip_page_bytes (chip ready041)) = (1000 :: 32 word)"
proof -
  have m: "matched ready041"
    by (rule ready041_facts)
  have b: "unat (1000 :: 32 word) div chip_page_bytes (chip ready041) < 65536"
    by (simp add: ready041_facts)
  from address_recombination[OF m, of 1000] m b show ?thesis
    by blast
qed

text \<open>
  C9, as stated, fails on an AT45DB041 at address 264: the recombined address is 264
  again and its page is 1, not 264.
\<close>

theorem page_of_recombined_is_not_address:
  "ucast (addressToPage (ucast (addressToByteInPage 264 ready041)
            + ucast (addressToPage 264 ready041) * 264) ready041) \<noteq> (264 :: 32 word)"
  by (simp add: addressToPage_def addressToByteInPage_def ready041_facts AT45_PageBytes_def)

section \<open>Single-byte and multi-byte writes\<close>

text \<open>
  C10. On a chip whose density the driver has identified, for every address \<open>addr\<close>
  inside the device and every byte \<open>v\<close>, \<open>writeByte(addr, v)\<close> and
  \<open>writeBytes(addr, buf, 1)\<close> with \<open>buf = {v}\<close> both return, in the same state of driver
  and chip. The commands sent are: buffer clear, fetch of the page of \<open>addr\<close> into the
  buffer, buffer write of the complement of \<open>v\<close> at the offset of \<open>addr\<close>, program of
  the buffer into the page of \<open>addr\<close>; page and offset are \<open>addr div pageBytes\<close> and
  \<open>addr mod pageBytes\<close>. The main array afterwards is the array before with the
  complement of \<open>v\<close> at \<open>addr\<close>.
\<close>

theorem writeByte_eq_writeBytes_single:
  assumes m: "matched s" and a: "unat addr < dev_bytes (chip s)"
  shows "\<exists>s'. writeByte addr v s = Some s' \<and> writeBytes addr [v] s = Some s'
     \<and> device_cmds (trace s') = device_cmds (trace s)
          @ [txn_clear (density s), txn_fetch (density s) (addressToPage addr s),
             txn_bufwrite (density s) (addressToByteInPage addr s) v,
             txn_program (density s) (addressToPage addr s)]
     \<and> flat s' = (flat s)(unat addr := NOT v)
     \<and> unat (addressToPage addr s) = unat addr div chip_page_bytes (chip s)
     \<and> unat (addressToByteInPage addr s) = unat addr mod chip_page_bytes (chip s)"
proof -
  have "writeBytes_loop addr 1 [] = Some"
    by (rule ext) simp
  then have eq: "writeByte addr v s = writeBytes addr [v] s"
    by (simp add: writeByte_def writeBytes_def)
  obtain s' where s': "writeByte addr v s = Some s'"
      "device_cmds (trace s') = device_cmds (trace s)
          @ [txn_clear (density s), txn_fetch (density s) (addressToPage addr s),
             txn_bufwrite (density s) (addressToByteInPage addr s) v,
             txn_program (density s) (addressToPage addr s)]"
    using writeByte_cmds[of addr v s] by blast
  have fl: "flat s' = (flat s)(unat addr := NOT v)"
    using writeByte_session[OF m a, of v] s'(1) by auto
  show ?thesis
    using s' eq fl addressToPage_unat(1)[OF m a] addressToByteInPage_unat[OF m, of addr]
    by simp
qed

theorem writeByte_eq_writeBytes_single_witness:
  "matched ready041 \<and> unat (269 :: 32 word) < dev_bytes (chip ready041)
   \<and> (\<exists>s'. writeByte 269 0x12 ready041 = Some s' \<and> writeBytes 269 [0x12] ready041 = Some s'
        \<and> device_cmds (trace s')
            = [txn_clear 2, [0x53, 0, 2, 0], [0x84, 0, 0, 5, 0xED], [0x83, 0, 2, 0]]
        \<and> flat s' 269 = 0xED \<and> flat s' 268 = 0xFF)"
proof -
  have h: "matched ready041" "unat (269 :: 32 word) < dev_bytes (chip ready041)"
    by (simp_all add: ready041_facts)
  have pg: "addressToPage 269 ready041 = 1" "addressToByteInPage 269 ready041 = 5"
    by (simp_all add: addressToPage_def addressToByteInPage_def ready041_facts AT45_PageBytes_def)
  have tx: "txn_fetch 2 1 = [0x53, 0, 2, 0]" "txn_bufwrite 2 5 0x12 = [0x84, 0, 0, 5, 0xED]"
    "txn_program 2 1 = [0x83, 0, 2, 0]"
    by (simp_all add: txn_fetch_def txn_bufwrite_def txn_program_def addr_bytes_def
        AT45_PageBitSizes_def)
  have old: "flat ready041 268 = 0xFF"
    by (simp add: flat_def ready041_facts)
  from writeByte_eq_writeBytes_single[OF h, of "0x12"] obtain s' where
    s': "writeByte 269 0x12 ready041 = Some s'" "writeBytes 269 [0x12] ready041 = Some s'"
      "device_cmds (trace s') = device_cmds (trace ready041)
          @ [txn_clear (density ready041), txn_fetch (density ready041) (addressToPage 269 ready041),
             txn_bufwrite (density ready041) (addressToByteInPage 269 ready041) 0x12,
             txn_program (density ready041) (addressToPage 269 ready041)]"
      "flat s' = (flat ready041)(unat (269 :: 32 word) := NOT 0x12)"
    by blast
  have "device_cmds (trace s')
      = [txn_clear 2, [0x53, 0, 2, 0], [0x84, 0, 0, 5, 0xED], [0x83, 0, 2, 0]]"
    using s'(3) by (simp add: pg tx ready041_facts)
  moreover have "flat s' 269 = 0xED" "flat s' 268 = 0xFF"
    using s'(4) old by simp_all
  ultimately show ?thesis
    using h s'(1,2) by simp
qed

section \<open>The page-buffer write session\<close>

text \<open>
  C1. On a chip whose density the driver has identified, take a page \<open>P\<close> with a page
  after it and run one write sequence: start at byte 0 of \<open>P\<close>, write \<open>v0\<close> to byte 0
  of \<open>P\<close>, write \<open>v1\<close> to byte \<open>k\<close> of page \<open>P + 1\<close>, write \<open>v2\<close> to byte 1 of \<open>P\<close>,
  stop. Every step returns. Leaving \<open>P\<close> programs it, and coming back fetches \<open>P\<close>
  from the main array again (clear buffer, page-to-buffer transfer of \<open>P\<close>) before the
  byte is written into the buffer: the commands sent are exactly the twelve listed.
  Afterwards byte 0 of \<open>P\<close> holds what was written to it before the boundary was
  crossed (\<open>readBytes\<close> returns \<open>v0\<close>; the array holds its complement), and every byte
  of \<open>P\<close> that the sequence did not write holds what it held before the sequence.
\<close>

theorem restaged_page_keeps_its_bytes:
  assumes m: "matched s" and P: "P + 1 < chip_pages (chip s)"
    and k: "k < chip_page_bytes (chip s)"
  shows "\<exists>s1 s2 s3 s4.
      startContWrite (of_nat (P * chip_page_bytes (chip s))) s = Some s1
    \<and> writeContByte (of_nat (P * chip_page_bytes (chip s))) v0 s1 = Some s2
    \<and> writeContByte (of_nat ((P + 1) * chip_page_bytes (chip s) + k)) v1 s2 = Some s3
    \<and> writeContByte (of_nat (P * chip_page_bytes (chip s) + 1)) v2 s3 = Some s4
    \<and> device_cmds (trace (stopContWrite s4)) = device_cmds (trace s) @
         [txn_clear (density s), txn_fetch (density s) (of_nat P),
          txn_bufwrite (density s) 0 v0,
          txn_program (density s) (of_nat P),
          txn_clear (density s), txn_fetch (density s) (of_nat (P + 1)),
          txn_bufwrite (density s) (of_nat k) v1,
          txn_program (density s) (of_nat (P + 1)),
          txn_clear (density s), txn_fetch (density s) (of_nat P),
          txn_bufwrite (density s) 1 v2,
          txn_program (density s) (of_nat P)]
    \<and> flat (stopContWrite s4) (P * chip_page_bytes (chip s)) = NOT v0
    \<and> fst (readBytes (of_nat (P * chip_page_bytes (chip s))) 1 (stopContWrite s4)) = [v0]
    \<and> (\<forall>j. 2 \<le> j \<and> j < chip_page_bytes (chip s) \<longrightarrow>
          flat (stopContWrite s4) (P * chip_page_bytes (chip s) + j)
            = flat s (P * chip_page_bytes (chip s) + j))"
proof -
  let ?pb = "chip_page_bytes (chip s)"
  define n0 where "n0 = P * ?pb"
  define n1 where "n1 = (P + 1) * ?pb + k"
  define n2 where "n2 = P * ?pb + 1"
  define a0 :: "32 word" where "a0 = of_nat n0"
  define a1 :: "32 word" where "a1 = of_nat n1"
  define a2 :: "32 word" where "a2 = of_nat n2"
  have pb: "264 \<le> ?pb" "0 < ?pb" "1 < ?pb"
    using page_bytes_bounds(2)[of "chip s"] by simp_all
  have "(P + 2) * ?pb \<le> chip_pages (chip s) * ?pb"
    using P by (intro mult_right_mono) simp_all
  then have dev: "(P + 2) * ?pb \<le> dev_bytes (chip s)"
    by (simp add: dev_bytes_def)
  have big: "dev_bytes (chip s) < 4294967296"
    using dev_bytes_bound[of "chip s"] by simp
  have lt: "n0 < dev_bytes (chip s)" "n1 < dev_bytes (chip s)" "n2 < dev_bytes (chip s)"
    using dev k pb by (simp_all add: algebra_simps n0_def n1_def n2_def)
  have u: "unat a0 = n0" "unat a1 = n1" "unat a2 = n2"
    unfolding a0_def a1_def a2_def by (rule unat_of_nat_32, use lt big in linarith)+
  have d0: "n0 div ?pb = P" "n0 mod ?pb = 0"
    using div_mod_page[of 0 ?pb P] pb by (simp_all add: n0_def)
  have d1: "n1 div ?pb = P + 1" "n1 mod ?pb = k"
    unfolding n1_def using k by (rule div_mod_page)+
  have d2: "n2 div ?pb = P" "n2 mod ?pb = 1"
    unfolding n2_def using pb(3) by (rule div_mod_page)+
  have ne: "n0 \<noteq> n1" "n0 \<noteq> n2"
    using d0 d1 d2 by auto
  from startContWrite_full[OF m, of a0] lt obtain s1 where
    s1: "startContWrite a0 s = Some s1" "session_ok s1" "chip s1 = chip s"
      "density s1 = density s" "unat (cur_page_in_buf s1) = P" "staged s1 = flat s"
      "device_cmds (trace s1) = device_cmds (trace s)
          @ [txn_clear (density s), txn_fetch (density s) (of_nat P)]"
    by (auto simp: u d0)
  from writeContByte_full[OF s1(2), of a0 v0] lt obtain s2 where
    s2: "writeContByte a0 v0 s1 = Some s2" "session_ok s2" "chip s2 = chip s"
      "density s2 = density s" "unat (cur_page_in_buf s2) = P"
      "staged s2 = (flat s)(n0 := NOT v0)"
      "device_cmds (trace s2) = device_cmds (trace s1) @ [txn_bufwrite (density s) 0 v0]"
    by (auto simp: u d0 s1)
  from writeContByte_full[OF s2(2), of a1 v1] lt obtain s3 where
    s3: "writeContByte a1 v1 s2 = Some s3" "session_ok s3" "chip s3 = chip s"
      "density s3 = density s" "unat (cur_page_in_buf s3) = P + 1"
      "staged s3 = (flat s)(n0 := NOT v0, n1 := NOT v1)"
      "device_cmds (trace s3) = device_cmds (trace s2)
          @ [txn_program (density s) (of_nat P), txn_clear (density s),
             txn_fetch (density s) (of_nat (P + 1)), txn_bufwrite (density s) (of_nat k) v1]"
    by (auto simp: u d1 s2)
  from writeContByte_full[OF s3(2), of a2 v2] lt obtain s4 where
    s4: "writeContByte a2 v2 s3 = Some s4" "session_ok s4" "chip s4 = chip s"
      "density s4 = density s" "unat (cur_page_in_buf s4) = P"
      "staged s4 = (flat s)(n0 := NOT v0, n1 := NOT v1, n2 := NOT v2)"
      "device_cmds (trace s4) = device_cmds (trace s3)
          @ [txn_program (density s) (of_nat (P + 1)), txn_clear (density s),
             txn_fetch (density s) (of_nat P), txn_bufwrite (density s) 1 v2]"
    by (auto simp: u d2 s3)
  let ?s' = "stopContWrite s4"
  have fl: "flat ?s' = staged s4" and m': "matched ?s'" and c': "chip ?s' = chip s"
    using stopContWrite_session[OF s4(2)] s4(3) by simp_all
  have cur4: "(ucast (cur_page_in_buf s4) :: 16 word) = of_nat P"
  proof -
    have "unat (cur_page_in_buf s4) < 65536"
      using s4(5) P chip_geometry(2)[of "chip s"] by simp
    then have "unat (ucast (cur_page_in_buf s4) :: 16 word) = P"
      using s4(5) by (simp add: unat_ucast_32_16)
    then show ?thesis
      by (rule word16_of_unat)
  qed
  have cmds: "device_cmds (trace ?s') = device_cmds (trace s) @
         [txn_clear (density s), txn_fetch (density s) (of_nat P),
          txn_bufwrite (density s) 0 v0,
          txn_program (density s) (of_nat P),
          txn_clear (density s), txn_fetch (density s) (of_nat (P + 1)),
          txn_bufwrite (density s) (of_nat k) v1,
          txn_program (density s) (of_nat (P + 1)),
          txn_clear (density s), txn_fetch (density s) (of_nat P),
          txn_bufwrite (density s) 1 v2,
          txn_program (density s) (of_nat P)]"
    by (simp add: stopContWrite_cmds s4 s3 s2 s1 cur4)
  have b0: "flat ?s' n0 = NOT v0"
    using ne by (simp add: fl s4)
  have rd: "fst (readBytes a0 1 ?s') = [v0]"
    using m' lt by (simp add: readBytes_flat c' u b0)
  have rest: "flat ?s' (P * ?pb + j) = flat s (P * ?pb + j)" if "2 \<le> j" "j < ?pb" for j
  proof -
    have "(P * ?pb + j) mod ?pb = j" "(P * ?pb + j) div ?pb = P"
      using that(2) by (rule div_mod_page)+
    then have "P * ?pb + j \<noteq> n0" "P * ?pb + j \<noteq> n1" "P * ?pb + j \<noteq> n2"
      using d0 d1 d2 that(1) by auto
    then show ?thesis
      by (simp add: fl s4)
  qed
  from s1(1) s2(1) s3(1) s4(1) cmds b0 rd rest show ?thesis
    unfolding a0_def a1_def a2_def n0_def n1_def n2_def by blast
qed


theorem restaged_page_keeps_its_bytes_witness:
  "matched ready041 \<and> (3::nat) + 1 < chip_pages (chip ready041)
   \<and> (5::nat) < chip_page_bytes (chip ready041)
   \<and> (\<exists>s1 s2 s3 s4.
        startContWrite (of_nat (3 * chip_page_bytes (chip ready041))) ready041 = Some s1
      \<and> writeContByte (of_nat (3 * chip_page_bytes (chip ready041))) 0x11 s1 = Some s2
      \<and> writeContByte (of_nat ((3 + 1) * chip_page_bytes (chip ready041) + 5)) 0x22 s2 = Some s3
      \<and> writeContByte (of_nat (3 * chip_page_bytes (chip ready041) + 1)) 0x33 s3 = Some s4
      \<and> fst (readBytes (of_nat (3 * chip_page_bytes (chip ready041))) 1 (stopContWrite s4))
          = [0x11]
      \<and> flat (stopContWrite s4) (3 * chip_page_bytes (chip ready041) + 7)
          = flat ready041 (3 * chip_page_bytes (chip ready041) + 7))"
proof -
  have h: "matched ready041" "(3::nat) + 1 < chip_pages (chip ready041)"
    "(5::nat) < chip_page_bytes (chip ready041)"
    by (simp_all add: ready041_facts)
  have j: "(2::nat) \<le> 7 \<and> 7 < chip_page_bytes (chip ready041)"
    by (simp add: ready041_facts)
  from restaged_page_keeps_its_bytes[OF h, of "0x11" "0x22" "0x33"] j h show ?thesis
    by blast
qed

text \<open>
  C6. With a supported density in \<open>_density\<close>, for every \<open>N\<close> from 1 to 65535 (\<open>len\<close> is
  a \<open>uint16_t\<close>) and every start address whose range \<open>addr .. addr + N - 1\<close> does not run
  past the end of the 32-bit address space, \<open>writeBytes\<close> returns, and among the
  commands it sends there are exactly \<open>K\<close> page-to-buffer transfers (opcode \<open>0x53\<close>) and
  exactly \<open>K\<close> buffer-to-page programs (opcode \<open>0x83\<close>), \<open>K\<close> being the number of distinct
  pages \<open>n div pageBytes\<close> of the addresses \<open>n\<close> of the range. With 264-byte pages, 300
  bytes at address 0 give: clear and fetch page 0, 264 buffer writes at offsets 0 to
  263, program page 0, clear and fetch page 1, 36 buffer writes at offsets 0 to 35,
  program page 1.
\<close>

theorem writeBytes_commands_per_page:
  assumes d: "density s = of_nat (AT45Flash_value c)" and ne: "data \<noteq> []"
    and len: "length data < 65536" and span: "unat addr + length data \<le> 4294967296"
  shows "\<exists>s' cmds. writeBytes addr data s = Some s'
    \<and> device_cmds (trace s') = device_cmds (trace s) @ cmds
    \<and> count_op 0x53 cmds
        = card ((\<lambda>n. n div chip_page_bytes c) ` {unat addr..<unat addr + length data})
    \<and> count_op 0x83 cmds
        = card ((\<lambda>n. n div chip_page_bytes c) ` {unat addr..<unat addr + length data})
    \<and> (chip_page_bytes c = 264 \<and> addr = 0 \<and> length data = 300 \<longrightarrow>
         cmds = [txn_clear (density s), txn_fetch (density s) 0]
           @ map (\<lambda>k. txn_bufwrite (density s) (of_nat k) (data ! k)) [0..<264]
           @ [txn_program (density s) 0, txn_clear (density s), txn_fetch (density s) 1]
           @ map (\<lambda>k. txn_bufwrite (density s) (of_nat k) (data ! (264 + k))) [0..<36]
           @ [txn_program (density s) 1])"
proof -
  let ?pb = "chip_page_bytes c" and ?a = "unat addr" and ?d = "density s"
  let ?cmds = "[txn_clear ?d, txn_fetch ?d (of_nat (?a div ?pb))]
        @ session_cmds ?d ?pb (of_nat (?a div ?pb)) ?a data
        @ [txn_program ?d (of_nat ((?a + length data - 1) div ?pb))]"
  from writeBytes_cmds[OF d ne len span] obtain s' where
    s': "writeBytes addr data s = Some s'"
      "device_cmds (trace s') = device_cmds (trace s) @ ?cmds"
    by auto
  from ne obtain b bs where data: "data = b # bs"
    by (cases data) auto
  have pb: "0 < ?pb"
    by (rule chip_geometry(4))
  have loop: "session_cmds ?d ?pb (of_nat (?a div ?pb)) ?a data
      = txn_bufwrite ?d (of_nat (?a mod ?pb)) b
        # session_cmds ?d ?pb (of_nat (?a div ?pb)) (Suc ?a) bs"
    by (simp add: data)
  have K: "card ((\<lambda>n. n div ?pb) ` {?a..<?a + length data})
      = Suc ((?a + length bs) div ?pb - ?a div ?pb)"
    using card_pages_of_range[OF pb, of "length data" ?a] by (simp add: data)
  have c53: "count_op 0x53 ?cmds = Suc ((?a + length bs) div ?pb - ?a div ?pb)"
    using count_session_cmds[of ?d ?pb ?a bs] by (simp add: loop)
  have c83: "count_op 0x83 ?cmds = Suc ((?a + length bs) div ?pb - ?a div ?pb)"
    using count_session_cmds[of ?d ?pb ?a bs] by (simp add: loop)
  have scen: "?cmds = [txn_clear ?d, txn_fetch ?d 0]
           @ map (\<lambda>k. txn_bufwrite ?d (of_nat k) (data ! k)) [0..<264]
           @ [txn_program ?d 0, txn_clear ?d, txn_fetch ?d 1]
           @ map (\<lambda>k. txn_bufwrite ?d (of_nat k) (data ! (264 + k))) [0..<36]
           @ [txn_program ?d 1]"
    if "?pb = 264" "addr = 0" "length data = 300"
    using that by (simp add: session_cmds_300)
  from s' K c53 c83 scen show ?thesis
    by (intro exI[of _ s'] exI[of _ ?cmds]) simp
qed

theorem writeBytes_commands_per_page_witness:
  "density ready041 = of_nat (AT45Flash_value AT45DB041) \<and> replicate 300 (0xA5 :: 8 word) \<noteq> []
   \<and> length (replicate 300 (0xA5 :: 8 word)) < 65536
   \<and> unat (0 :: 32 word) + length (replicate 300 (0xA5 :: 8 word)) \<le> 4294967296
   \<and> chip_page_bytes AT45DB041 = 264
   \<and> card ((\<lambda>n. n div chip_page_bytes AT45DB041)
          ` {unat (0 :: 32 word)..<unat (0 :: 32 word) + length (replicate 300 (0xA5 :: 8 word))}) = 2
   \<and> (\<exists>s' cmds. writeBytes 0 (replicate 300 0xA5) ready041 = Some s'
        \<and> device_cmds (trace s') = device_cmds (trace ready041) @ cmds
        \<and> count_op 0x53 cmds = 2 \<and> count_op 0x83 cmds = 2
        \<and> cmds = [txn_clear 2, txn_fetch 2 0]
           @ map (\<lambda>k. txn_bufwrite 2 (of_nat k) (replicate 300 0xA5 ! k)) [0..<264]
           @ [txn_program 2 0, txn_clear 2, txn_fetch 2 1]
           @ map (\<lambda>k. txn_bufwrite 2 (of_nat k) (replicate 300 0xA5 ! (264 + k))) [0..<36]
           @ [txn_program 2 1])"
proof -
  have h: "density ready041 = of_nat (AT45Flash_value AT45DB041)"
    "replicate 300 (0xA5 :: 8 word) \<noteq> []"
    "length (replicate 300 (0xA5 :: 8 word)) < 65536"
    "unat (0 :: 32 word) + length (replicate 300 (0xA5 :: 8 word)) \<le> 4294967296"
    by (simp_all add: ready041_facts)
  have pb: "chip_page_bytes AT45DB041 = 264"
    by (rule ready041_facts)
  have K: "card ((\<lambda>n. n div chip_page_bytes AT45DB041)
          ` {unat (0 :: 32 word)..<unat (0 :: 32 word) + length (replicate 300 (0xA5 :: 8 word))}) = 2"
    using card_pages_of_range[of 264 300 0] by (simp add: pb)
  have sc: "chip_page_bytes AT45DB041 = 264 \<and> (0 :: 32 word) = 0
      \<and> length (replicate 300 (0xA5 :: 8 word)) = 300"
    by (simp add: pb)
  from writeBytes_commands_per_page[OF h] obtain s' cmds where
    r: "writeBytes 0 (replicate 300 0xA5) ready041 = Some s'"
      "device_cmds (trace s') = device_cmds (trace ready041) @ cmds"
      "count_op 0x53 cmds = card ((\<lambda>n. n div chip_page_bytes AT45DB041)
          ` {unat (0 :: 32 word)..<unat (0 :: 32 word) + length (replicate 300 (0xA5 :: 8 word))})"
      "count_op 0x83 cmds = card ((\<lambda>n. n div chip_page_bytes AT45DB041)
          ` {unat (0 :: 32 word)..<unat (0 :: 32 word) + length (replicate 300 (0xA5 :: 8 word))})"
      "chip_page_bytes AT45DB041 = 264 \<and> (0 :: 32 word) = 0
         \<and> length (replicate 300 (0xA5 :: 8 word)) = 300 \<longrightarrow>
         cmds = [txn_clear (density ready041), txn_fetch (density ready041) 0]
           @ map (\<lambda>k. txn_bufwrite (density ready041) (of_nat k) (replicate 300 0xA5 ! k)) [0..<264]
           @ [txn_program (density ready041) 0, txn_clear (density ready041),
              txn_fetch (density ready041) 1]
           @ map (\<lambda>k. txn_bufwrite (density ready041) (of_nat k)
                  (replicate 300 0xA5 ! (264 + k))) [0..<36]
           @ [txn_program (density ready041) 1]"
    by blast
  from r(5) sc have "cmds = [txn_clear 2, txn_fetch 2 0]
           @ map (\<lambda>k. txn_bufwrite 2 (of_nat k) (replicate 300 0xA5 ! k)) [0..<264]
           @ [txn_program 2 0, txn_clear 2, txn_fetch 2 1]
           @ map (\<lambda>k. txn_bufwrite 2 (of_nat k) (replicate 300 0xA5 ! (264 + k))) [0..<36]
           @ [txn_program 2 1]"
    unfolding ready041_facts(6) by blast
  with r(1-4) K h pb show ?thesis
    by (intro conjI exI[of _ s'] exI[of _ cmds]) simp_all
qed





text \<open>
  C8. \<open>stopContWrite\<close> always sends the buffer-to-page program command for the page
  recorded in \<open>_cur_page_in_buf\<close>; with a valid staged page the main array then holds
  the buffer in that page and is unchanged elsewhere. It does not touch
  \<open>_cur_page_in_buf\<close>: the driver goes on recording the page just programmed, which
  is the page the chip's buffer still holds.
\<close>

theorem stopContWrite_programs_staged_page:
  assumes "session_ok s"
  shows "main_mem (stopContWrite s) (unat (cur_page_in_buf s)) = sram s
    \<and> (\<forall>p. p \<noteq> unat (cur_page_in_buf s) \<longrightarrow> main_mem (stopContWrite s) p = main_mem s p)
    \<and> device_cmds (trace (stopContWrite s))
        = device_cmds (trace s) @ [txn_program (density s) (ucast (cur_page_in_buf s))]
    \<and> cur_page_in_buf (stopContWrite s) = cur_page_in_buf s"
  using assms by (simp add: stopContWrite_cmds) (simp add: stopContWrite_eq staged_page_wire)

theorem stopContWrite_programs_staged_page_witness:
  "session_ok (the (startContWrite 800 ready041))
   \<and> main_mem (stopContWrite (the (startContWrite 800 ready041)))
        (unat (cur_page_in_buf (the (startContWrite 800 ready041))))
      = sram (the (startContWrite 800 ready041))
   \<and> 4 \<noteq> unat (cur_page_in_buf (the (startContWrite 800 ready041)))
   \<and> main_mem (stopContWrite (the (startContWrite 800 ready041))) 4
        = main_mem (the (startContWrite 800 ready041)) 4
   \<and> device_cmds (trace (stopContWrite (the (startContWrite 800 ready041))))
        = device_cmds (trace (the (startContWrite 800 ready041)))
          @ [txn_program (density (the (startContWrite 800 ready041)))
               (ucast (cur_page_in_buf (the (startContWrite 800 ready041))))]
   \<and> cur_page_in_buf (stopContWrite (the (startContWrite 800 ready041)))
        = cur_page_in_buf (the (startContWrite 800 ready041))"
proof -
  have "unat (800 :: 32 word) < dev_bytes (chip ready041)"
    by (simp add: ready041_facts)
  with ready041_facts(1) obtain s1 where s1: "startContWrite 800 ready041 = Some s1"
    "session_ok s1" "unat (cur_page_in_buf s1) = unat (800 :: 32 word) div chip_page_bytes (chip ready041)"
    using startContWrite_session[of ready041 800] by auto
  then have ok: "session_ok (the (startContWrite 800 ready041))"
    and p: "4 \<noteq> unat (cur_page_in_buf (the (startContWrite 800 ready041)))"
    by (simp_all add: ready041_facts)
  from stopContWrite_programs_staged_page[OF ok] ok p show ?thesis
    by blast
qed

text \<open>
  C8, as stated, fails: after construction the driver records no staged page
  (\<open>_cur_page_in_buf = -1\<close>); after a complete \<open>writeByte(800, 0x12)\<close>, which ends with
  \<open>stopContWrite\<close>, it records page 3.
\<close>

theorem stopContWrite_keeps_staged_page_number:
  "cur_page_in_buf ready041 = - 1
   \<and> writeByte 800 0x12 ready041 \<noteq> None
   \<and> cur_page_in_buf (the (writeByte 800 0x12 ready041)) = 3
   \<and> cur_page_in_buf (the (writeByte 800 0x12 ready041)) \<noteq> - 1"
proof -
  have p: "addressToPage 800 s = 3" if "density s = 2" for s
    using that by (simp add: addressToPage_def AT45_PageBytes_def)
  obtain s1 where s1: "startContWrite 800 ready041 = Some s1" "density s1 = 2"
    using startContWrite_cmds[of 800 ready041] by (auto simp: ready041_facts)
  obtain s2 where s2: "writeContByte 800 0x12 s1 = Some s2"
      "cur_page_in_buf s2 = ucast (addressToPage 800 s1)"
    using writeContByte_cmds[of 800 "0x12" s1] by auto
  have "writeByte 800 0x12 ready041 = Some (stopContWrite s2)"
    by (simp add: writeByte_def s1 s2)
  then show ?thesis
    by (simp add: stopContWrite_cmds s2 p[OF s1(2)] ready041_facts)
qed

section \<open>Writing and reading back\<close>

text \<open>
  C2. On a chip whose density the driver has identified, for every address \<open>addr\<close> and
  every byte array \<open>data\<close> of at most 65535 bytes (\<open>len\<close> is a \<open>uint16_t\<close>) whose span
  \<open>addr .. addr + len(data)\<close> stays within the device, \<open>writeBytes(addr, data, len)\<close>
  returns, and \<open>readBytes(addr, buf, len)\<close> called next fills \<open>buf\<close> with exactly
  \<open>data\<close>: the complement taken on the way into the buffer and the complement taken on
  the way out of the array cancel.
\<close>

theorem writeBytes_readBytes_round_trip:
  assumes m: "matched s" and len: "length data < 65536"
    and span: "unat addr + length data \<le> dev_bytes (chip s)"
  shows "\<exists>s'. writeBytes addr data s = Some s'
    \<and> fst (readBytes addr (of_nat (length data)) s') = data"
proof (cases "data = []")
  case True
  then show ?thesis
    by (simp add: writeBytes_def startContWrite_eq readBytes_eq)
next
  case False
  then have a: "unat addr < dev_bytes (chip s)"
    using span by (cases data) simp_all
  from writeBytes_session[OF m len a span] obtain s' where
    s': "writeBytes addr data s = Some s'" "matched s'" "chip s' = chip s"
      "flat s' = store_bytes (flat s) (unat addr) data"
    by blast
  have n: "unat (of_nat (length data) :: 16 word) = length data"
    using len by (rule unat_of_nat_16)
  have "fst (readBytes addr (of_nat (length data)) s')
      = map (\<lambda>k. NOT (flat s' (unat addr + k))) [0..<length data]"
    using s' span by (simp add: readBytes_flat n)
  also have "\<dots> = map (\<lambda>k. data ! k) [0..<length data]"
    by (rule map_cong) (simp_all add: s'(4) store_bytes_apply)
  also have "\<dots> = data"
    by (rule map_nth)
  finally show ?thesis
    using s'(1) by simp
qed

theorem writeBytes_readBytes_round_trip_witness:
  "matched ready041 \<and> length [1, 2, 3, 4 :: 8 word] < 65536
   \<and> unat (262 :: 32 word) + length [1, 2, 3, 4 :: 8 word] \<le> dev_bytes (chip ready041)
   \<and> (\<exists>s'. writeBytes 262 [1, 2, 3, 4] ready041 = Some s'
        \<and> fst (readBytes 262 (of_nat (length [1, 2, 3, 4 :: 8 word])) s') = [1, 2, 3, 4])"
proof -
  have h: "matched ready041" "length [1, 2, 3, 4 :: 8 word] < 65536"
    "unat (262 :: 32 word) + length [1, 2, 3, 4 :: 8 word] \<le> dev_bytes (chip ready041)"
    by (simp_all add: ready041_facts)
  from writeBytes_readBytes_round_trip[OF h] h show ?thesis
    by blast
qed

text \<open>
  C3. \<open>readByte\<close> hands back the byte as the chip sends it, without the complement that
  \<open>readBytes\<close> applies: after \<open>writeByte(5, 0x12)\<close> on an erased AT45DB041,
  \<open>readByte(5)\<close> is \<open>0xED\<close>, while \<open>readBytes(5, buf, 1)\<close> gives \<open>0x12\<close>.
\<close>

theorem readByte_returns_complement:
  "writeByte 5 0x12 ready041 \<noteq> None
   \<and> fst (readByte 5 (the (writeByte 5 0x12 ready041))) = 0xED
   \<and> fst (readBytes 5 1 (the (writeByte 5 0x12 ready041))) = [0x12]"
proof -
  have a: "unat (5 :: 32 word) < dev_bytes (chip ready041)"
    by (simp add: ready041_facts)
  from writeByte_session[OF ready041_facts(1) a, of "0x12"] obtain s' where
    s': "writeByte 5 0x12 ready041 = Some s'" "matched s'" "chip s' = chip ready041"
      "flat s' = (flat ready041)(unat (5 :: 32 word) := NOT 0x12)"
    by blast
  have "fst (readByte 5 s') = 0xED"
    using s' a by (simp add: readByte_flat)
  moreover have "fst (readBytes 5 1 s') = [0x12]"
    using s' a by (simp add: readBytes_flat ready041_facts)
  ultimately show ?thesis
    using s'(1) by simp
qed


section \<open>Region erases\<close>

text \<open>
  C4. \<open>blockErase4K(0)\<close> on a 264-byte-page chip computes 16 pages and calls
  \<open>eraseBlock(page + i)\<close> for \<open>i = 0, 8\<close>: it passes page numbers where \<open>eraseBlock\<close>
  takes a block index and shifts it by three. The chip erases blocks 0 and 8, that is
  pages 0 to 7 and 64 to 71: page 7 and page 64 read erased, pages 8 and 15 keep
  their contents.
\<close>

theorem blockErase4K_at_0_erases_blocks_0_and_8:
  "blockErase4K 0 zeroed041 \<noteq> None
   \<and> device_cmds (trace (the (blockErase4K 0 zeroed041))) = [txn_erase 2 0, txn_erase 2 8]
   \<and> main_mem (the (blockErase4K 0 zeroed041)) 7 0 = 0xFF
   \<and> main_mem (the (blockErase4K 0 zeroed041)) 8 0 = 0x00
   \<and> main_mem (the (blockErase4K 0 zeroed041)) 15 0 = 0x00
   \<and> main_mem (the (blockErase4K 0 zeroed041)) 64 0 = 0xFF"
proof -
  let ?s1 = "after_erase 0 zeroed041"
  let ?s2 = "after_erase 8 ?s1"
  have e1: "eraseBlock 0 zeroed041 = Some ?s1"
    by (rule eraseBlock_mem) (simp_all add: zeroed041_facts ready041_facts)
  have e2: "eraseBlock 8 ?s1 = Some ?s2"
    by (rule eraseBlock_mem) (simp_all add: zeroed041_facts ready041_facts)
  have "blockErase4K 0 zeroed041 = blockErase_loop 0 0 16 zeroed041"
    by (simp add: blockErase4K_def addressToPage_def zeroed041_facts AT45_PageBytes_def)
  also have "\<dots> = blockErase_loop 0 8 16 ?s1"
    by (subst blockErase_loop.simps) (simp add: e1)
  also have "\<dots> = blockErase_loop 0 16 16 ?s2"
    by (subst blockErase_loop.simps) (simp add: e2)
  also have "\<dots> = Some ?s2"
    by (subst blockErase_loop.simps) simp
  finally have "blockErase4K 0 zeroed041 = Some ?s2" .
  then show ?thesis
    by (simp add: zeroed041_facts)
qed

text \<open>
  C5. The region erases issue whole-block erases only, but not the blocks of the
  requested span. \<open>blockErase4K(1320)\<close> on a 264-byte-page chip (address 1320 is byte 0
  of page 5) erases blocks 5 and 13, pages 40 to 47 and 104 to 111: the byte at the
  start address itself is not erased.
\<close>

theorem blockErase4K_leaves_start_page:
  "blockErase4K 1320 zeroed041 \<noteq> None
   \<and> device_cmds (trace (the (blockErase4K 1320 zeroed041))) = [txn_erase 2 5, txn_erase 2 13]
   \<and> unat (addressToPage 1320 zeroed041) = 5
   \<and> main_mem (the (blockErase4K 1320 zeroed041)) 5 0 = 0x00
   \<and> main_mem (the (blockErase4K 1320 zeroed041)) 40 0 = 0xFF
   \<and> main_mem (the (blockErase4K 1320 zeroed041)) 104 0 = 0xFF"
proof -
  let ?s1 = "after_erase 5 zeroed041"
  let ?s2 = "after_erase 13 ?s1"
  have e1: "eraseBlock 5 zeroed041 = Some ?s1"
    by (rule eraseBlock_mem) (simp_all add: zeroed041_facts ready041_facts)
  have e2: "eraseBlock 13 ?s1 = Some ?s2"
    by (rule eraseBlock_mem) (simp_all add: zeroed041_facts ready041_facts)
  have p: "addressToPage 1320 zeroed041 = 5"
    by (simp add: addressToPage_def zeroed041_facts AT45_PageBytes_def)
  have "blockErase4K 1320 zeroed041 = blockErase_loop 5 0 16 zeroed041"
    by (simp add: blockErase4K_def p zeroed041_facts AT45_PageBytes_def)
  also have "\<dots> = blockErase_loop 5 8 16 ?s1"
    by (subst blockErase_loop.simps) (simp add: e1)
  also have "\<dots> = blockErase_loop 5 16 16 ?s2"
    by (subst blockErase_loop.simps) (simp add: e2)
  also have "\<dots> = Some ?s2"
    by (subst blockErase_loop.simps) simp
  finally have "blockErase4K 1320 zeroed041 = Some ?s2" .
  then show ?thesis
    by (simp add: zeroed041_facts p)
qed

end
